theory Spec2Isabelle
  imports Main "HOL-Library.Word" "HOL-Library.List_Lexorder" "HOL-Library.Sublist"
    "HOL-Library.Multiset"
begin

section \<open>Data model of badger's Stream framework (stream.go)\<close>

text \<open>
  Byte slices are lists of 8-bit words. \<open>bytes.Compare\<close> is the lexicographic order on
  unsigned bytes, which is the order of \<open>HOL-Library.List_Lexorder\<close>; \<open>bytes.Equal\<close> is
  equality (a nil slice and an empty slice are equal, both are \<open>[]\<close>); \<open>bytes.HasPrefix\<close>
  is \<open>prefix\<close>.
\<close>

type_synonym byte = "8 word"
type_synonym bytes = "byte list"

text \<open>
  Go \<open>error\<close> values. \<open>ctx.Err()\<close> after \<open>ctx.Done()\<close> is closed is a cancellation-kind
  error; every other error (a failed value copy, an error of a user callback) is a
  \<open>Failure\<close> with some identity.
\<close>

datatype error = Cancellation | Failure nat

text \<open>
  An \<open>Item\<close> as the iterator surfaces it, one field per accessor that stream.go calls:
  \<open>item.Key()\<close>, \<open>item.Version()\<close>, \<open>item.UserMeta()\<close>, \<open>item.ExpiresAt()\<close>,
  \<open>item.IsDeletedOrExpired()\<close>, \<open>item.DiscardEarlierVersions()\<close> and the outcome of
  \<open>item.ValueCopy(nil)\<close>, which reads the value log and may fail.
\<close>

record Item =
  Key :: bytes
  Version :: "64 word"
  UserMeta :: byte
  ExpiresAt :: "64 word"
  IsDeletedOrExpired :: bool
  DiscardEarlierVersions :: bool
  ValueCopy :: "error + bytes"

text \<open>\<open>pb.KV\<close>, the output record, with the five fields that \<open>ToList\<close> fills in.\<close>

record KV =
  kvKey :: bytes
  kvValue :: bytes
  kvUserMeta :: bytes
  kvVersion :: "64 word"
  kvExpiresAt :: "64 word"

text \<open>\<open>pb.KVList\<close>: the slice \<open>Kv\<close> of records. A page and a batch are both a \<open>KVList\<close>.\<close>

type_synonym KVList = "KV list"

text \<open>\<open>keyRange\<close> is [left, right); an empty \<open>right\<close> means no upper bound.\<close>

record keyRange =
  left :: bytes
  right :: bytes

text \<open>The two options of the store that stream.go reads.\<close>

record Options =
  NumVersionsToKeep :: int
  managedTxns :: bool

text \<open>
  The store. Its split-point function \<open>db.KeySplits\<close> and the iterator of a read-only
  transaction are not part of stream.go; they are taken as they are used there:
  \<open>KeySplits\<close> maps a prefix to a list of keys, and \<open>itemsAt ts\<close> is the sequence of items
  that an all-versions iterator of a transaction reading at \<open>ts\<close> walks through, in
  iteration order (for the unmanaged transaction of \<open>db.NewTransaction\<close>, \<open>ts = 0\<close>).
\<close>

record DB =
  opt :: Options
  KeySplits :: "bytes \<Rightarrow> bytes list"
  itemsAt :: "64 word \<Rightarrow> Item list"

text \<open>
  The result of a key-expansion callback \<open>KeyToList(key, itr)\<close>: the error or the list
  (\<open>None\<close> is a nil \<open>*pb.KVList\<close>), and the number of \<open>itr.Next()\<close> calls it made on the
  shared iterator. The callback is documented to advance the iterator only.
\<close>

type_synonym expansion = "(error + KVList option) \<times> nat"

record Stream =
  Prefix :: bytes
  readTs :: "64 word"
  db :: DB
  ChooseKey :: "(Item \<Rightarrow> bool) option"
  KeyToList :: "(bytes \<Rightarrow> Item list \<Rightarrow> expansion) option"
  Send :: "(KVList list \<Rightarrow> KVList \<Rightarrow> error option) option"

text \<open>\<open>const pageSize = 4 << 20\<close>\<close>

definition pageSize :: nat where
  "pageSize = push_bit 20 4"

section \<open>The iterator\<close>

text \<open>
  Modelled from the spec: the storage cursor (badger's \<open>Iterator\<close>, not in stream.go) is
  "a cursor over (key, version, value, metadata) tuples sorted by key then by descending
  version, optionally restricted to a prefix, seekable to an arbitrary key". An iterator
  is the list of items from the current position on; \<open>itr.Item()\<close> is its head,
  \<open>itr.Next()\<close> its tail, \<open>itr.Valid()\<close> holds when there is a current item and its key has
  the prefix of the iterator options, and \<open>itr.Seek(k)\<close> moves to the first item whose key
  is not below \<open>k\<close>.
\<close>

definition Valid :: "bytes \<Rightarrow> Item list \<Rightarrow> bool" where
  "Valid pfx itr = (case itr of [] \<Rightarrow> False | item # _ \<Rightarrow> prefix pfx (Key item))"

definition Seek :: "Item list \<Rightarrow> bytes \<Rightarrow> Item list" where
  "Seek snap k = dropWhile (\<lambda>item. Key item < k) snap"

section \<open>ToList, the default key-expansion callback\<close>

definition kv_of :: "Item \<Rightarrow> bytes \<Rightarrow> KV" where
  "kv_of item valCopy =
     \<lparr>kvKey = Key item, kvValue = valCopy, kvUserMeta = [UserMeta item],
      kvVersion = Version item, kvExpiresAt = ExpiresAt item\<rparr>"

text \<open>
  The loop of \<open>ToList\<close> (lines 72 to 101): \<open>nvk\<close> is \<open>st.db.opt.NumVersionsToKeep\<close>, \<open>pfx\<close>
  the prefix of the iterator options, \<open>list\<close> the records appended so far and \<open>n\<close> the
  number of \<open>itr.Next()\<close> calls made so far. The loop ends when \<open>itr.Valid()\<close> is false;
  every \<open>break\<close> leaves the iterator where it is; the error of \<open>ValueCopy\<close> returns a
  nil list and the error.
\<close>

fun ToList_loop :: "int \<Rightarrow> bytes \<Rightarrow> bytes \<Rightarrow> Item list \<Rightarrow> KVList \<Rightarrow> nat \<Rightarrow> expansion" where
  "ToList_loop nvk pfx key [] list n = (Inr (Some list), n)"
| "ToList_loop nvk pfx key (item # rest) list n =
     (if \<not> Valid pfx (item # rest) then (Inr (Some list), n)
      else if IsDeletedOrExpired item then (Inr (Some list), n)
      else if key \<noteq> Key item then (Inr (Some list), n)
      else (case ValueCopy item of
              Inl err \<Rightarrow> (Inl err, n)
            | Inr valCopy \<Rightarrow>
                (let list' = list @ [kv_of item valCopy] in
                 if nvk = 1 then (Inr (Some list'), n)
                 else if DiscardEarlierVersions item then (Inr (Some list'), n)
                 else ToList_loop nvk pfx key rest list' (Suc n))))"

definition ToList :: "int \<Rightarrow> bytes \<Rightarrow> bytes \<Rightarrow> Item list \<Rightarrow> expansion" where
  "ToList nvk pfx key itr = ToList_loop nvk pfx key itr [] 0"

section \<open>produceRanges\<close>

text \<open>
  The sequence of values that \<open>produceRanges\<close> sends on \<open>rangeCh\<close> before closing it
  (lines 108 to 117): one range per split key, then the range from the last start with
  no right bound.
\<close>

fun produceRanges_loop :: "bytes \<Rightarrow> bytes list \<Rightarrow> keyRange list" where
  "produceRanges_loop start [] = [\<lparr>left = start, right = []\<rparr>]"
| "produceRanges_loop start (key # splits) =
     \<lparr>left = start, right = key\<rparr> # produceRanges_loop key splits"

definition produceRanges :: "Stream \<Rightarrow> keyRange list" where
  "produceRanges st = produceRanges_loop (Prefix st) (KeySplits (db st) (Prefix st))"

section \<open>NewStream and NewStreamAt\<close>

datatype panic = Panic string

definition NewStream :: "DB \<Rightarrow> panic + Stream" where
  "NewStream d =
     (if managedTxns (opt d) then Inl (Panic ''This API can not be called in managed mode.'')
      else Inr \<lparr>Prefix = [], readTs = 0, db = d, ChooseKey = None, KeyToList = None,
                Send = None\<rparr>)"

definition NewStreamAt :: "DB \<Rightarrow> 64 word \<Rightarrow> panic + Stream" where
  "NewStreamAt d ts =
     (if \<not> managedTxns (opt d)
      then Inl (Panic ''This API can only be called in managed mode.'')
      else Inr \<lparr>Prefix = [], readTs = ts, db = d, ChooseKey = None, KeyToList = None,
                Send = None\<rparr>)"

section \<open>produceKVs: the scan of one range\<close>

text \<open>
  The serialized size \<open>list.Size()\<close> of a \<open>pb.KVList\<close> belongs to the protobuf package; it
  is a parameter \<open>Size\<close> of everything below, a number of bytes.

  \<open>flush\<close> is the send of the trailing page (lines 175 to 177); \<open>pushed page r\<close> puts a
  page sent on \<open>kvChan\<close> in front of the pages that the rest of the loop sends.
\<close>

definition flush :: "KVList \<Rightarrow> KVList list" where
  "flush outList = (if length outList > 0 then [outList] else [])"

definition pushed ::
  "KVList \<Rightarrow> KVList list \<times> error option \<times> nat \<Rightarrow> KVList list \<times> error option \<times> nat" where
  "pushed page r = (case r of (pages, err, sz) \<Rightarrow> (page # pages, err, sz))"

definition iterate_measure :: "Item list \<Rightarrow> bytes \<Rightarrow> nat" where
  "iterate_measure itr prevKey =
     2 * length itr + (case itr of [] \<Rightarrow> 0 | item # _ \<Rightarrow> if Key item = prevKey then 0 else 1)"

text \<open>
  The loop of the closure \<open>iterate\<close> (lines 141 to 178), from the iterator position \<open>itr\<close>
  on, with the local variables \<open>prevKey\<close> and \<open>outList\<close> and the variable \<open>size\<close> of the
  enclosing \<open>produceKVs\<close> (here \<open>sz\<close>). The result is the list of pages sent on \<open>kvChan\<close>, in
  order, the error that \<open>iterate\<close> returns (\<open>None\<close> is nil) and the final value of \<open>size\<close>.
  An error of the key-expansion callback returns at once: the pages sent before stay sent
  and the current \<open>outList\<close> is dropped. A \<open>continue\<close> re-enters the loop without moving
  the iterator.
\<close>

function (sequential) iterate_loop ::
  "(Item \<Rightarrow> bool) option \<Rightarrow> (bytes \<Rightarrow> Item list \<Rightarrow> expansion) \<Rightarrow> (KVList \<Rightarrow> nat) \<Rightarrow> bytes \<Rightarrow>
   keyRange \<Rightarrow> Item list \<Rightarrow> bytes \<Rightarrow> KVList \<Rightarrow> nat \<Rightarrow> KVList list \<times> error option \<times> nat" where
  "iterate_loop chooseKey keyToList Size pfx kr [] prevKey outList sz = (flush outList, None, sz)"
| "iterate_loop chooseKey keyToList Size pfx kr (item # rest) prevKey outList sz =
     (if \<not> Valid pfx (item # rest) then (flush outList, None, sz)
      else if Key item = prevKey
        then iterate_loop chooseKey keyToList Size pfx kr rest prevKey outList sz
      else if length (right kr) > 0 \<and> Key item \<ge> right kr then (flush outList, None, sz)
      else if (case chooseKey of None \<Rightarrow> False | Some f \<Rightarrow> \<not> f item)
        then iterate_loop chooseKey keyToList Size pfx kr (item # rest) (Key item) outList sz
      else (case keyToList (Key item) (item # rest) of
              (Inl err, n) \<Rightarrow> ([], Some err, sz)
            | (Inr list, n) \<Rightarrow>
                (if list = None \<or> length (the list) = 0
                 then iterate_loop chooseKey keyToList Size pfx kr (drop n (item # rest))
                        (Key item) outList sz
                 else if sz + Size (the list) \<ge> pageSize
                 then pushed (outList @ the list)
                        (iterate_loop chooseKey keyToList Size pfx kr (drop n (item # rest))
                           (Key item) [] 0)
                 else iterate_loop chooseKey keyToList Size pfx kr (drop n (item # rest))
                        (Key item) (outList @ the list) (sz + Size (the list)))))"
  by pat_completeness auto
termination
proof -
  have drop_less: "iterate_measure (drop n (item # rest)) (Key item) <
      iterate_measure (item # rest) prevKey"
    if "Key item \<noteq> prevKey" for item :: Item and rest prevKey n
  proof (cases n)
    case 0
    with that show ?thesis by (simp add: iterate_measure_def)
  next
    case (Suc m)
    have "length (drop m rest) \<le> length rest" by simp
    with Suc that show ?thesis
      by (auto simp: iterate_measure_def split: list.splits)
  qed
  show ?thesis
  proof (relation "measure (\<lambda>(chooseKey, keyToList, Size, pfx, kr, itr, prevKey, outList, sz).
        iterate_measure itr prevKey)", goal_cases)
    case 1
    show ?case by simp
  next
    case 2
    then show ?case by (simp add: iterate_measure_def split: list.splits)
  next
    case 3
    then show ?case by (simp add: iterate_measure_def)
  next
    case (4 chooseKey keyToList Size pfx kr item rest prevKey outList sz x y)
    then show ?case using drop_less [of item prevKey] by simp
  next
    case (5 chooseKey keyToList Size pfx kr item rest prevKey outList sz x y)
    then show ?case using drop_less [of item prevKey] by simp
  next
    case (6 chooseKey keyToList Size pfx kr item rest prevKey outList sz x y)
    then show ?case using drop_less [of item prevKey] by simp
  qed
qed

text \<open>\<open>Orchestrate\<close>, lines 277 to 279: a nil \<open>KeyToList\<close> is replaced by \<open>ToList\<close>.\<close>

definition keyToList_of :: "Stream \<Rightarrow> bytes \<Rightarrow> Item list \<Rightarrow> expansion" where
  "keyToList_of st =
     (case KeyToList st of
        None \<Rightarrow> ToList (NumVersionsToKeep (opt (db st))) (Prefix st)
      | Some f \<Rightarrow> f)"

text \<open>
  One call \<open>iterate(kr)\<close> when \<open>size\<close> is \<open>sz\<close> at the call: a new iterator of the
  transaction (at \<open>readTs\<close>, all versions, with the prefix of the stream), \<open>Seek(kr.left)\<close>,
  an empty \<open>outList\<close> and a nil \<open>prevKey\<close>.
\<close>

definition iterate :: "Stream \<Rightarrow> (KVList \<Rightarrow> nat) \<Rightarrow> keyRange \<Rightarrow> nat \<Rightarrow> KVList list \<times> error option \<times> nat" where
  "iterate st Size kr sz =
     iterate_loop (ChooseKey st) (keyToList_of st) Size (Prefix st) kr
       (Seek (itemsAt (db st) (readTs st)) (left kr)) [] [] sz"

text \<open>
  The loop of \<open>produceKVs\<close> (lines 181 to 194) for a worker whose receives from \<open>rangeCh\<close>
  deliver the ranges \<open>krs\<close> in this order and then find the channel closed, while the
  context is never done: the pages the worker sends and the error it returns. \<open>size\<close> is
  declared outside \<open>iterate\<close> and is carried from one range to the next.
\<close>

fun produceKVs_ranges ::
  "Stream \<Rightarrow> (KVList \<Rightarrow> nat) \<Rightarrow> keyRange list \<Rightarrow> nat \<Rightarrow> KVList list \<times> error option" where
  "produceKVs_ranges st Size [] sz = ([], None)"
| "produceKVs_ranges st Size (kr # krs) sz =
     (case iterate st Size kr sz of
        (pages, Some err, sz') \<Rightarrow> (pages, Some err)
      | (pages, None, sz') \<Rightarrow>
          (case produceKVs_ranges st Size krs sz' of (later, r) \<Rightarrow> (pages @ later, r)))"

section \<open>Orchestrate: the goroutines and their channels\<close>

text \<open>
  The concurrent run of \<open>Orchestrate\<close> is a transition system over the state of its
  channels and goroutines. Each event is one communication or one return of one
  goroutine; \<open>step\<close> gives the state after the event, or \<open>None\<close> when the goroutine cannot
  take that step in this state (a send on a full channel and a receive from an empty
  open channel block). A \<open>select\<close> with several ready cases may take any of them, so
  several events of one goroutine can be enabled in the same state.
\<close>

text \<open>
  A worker goroutine (lines 288 to 297): at the \<open>select\<close> of \<open>produceKVs\<close> with its
  variable \<open>size\<close>; inside \<open>iterate\<close>, with the pages it still has to send on \<open>kvChan\<close>, the
  error \<open>iterate\<close> will return and the value of \<open>size\<close> after it; returned from \<open>produceKVs\<close>
  with its error; or finished (\<open>wg.Done\<close> has run).
\<close>

datatype wstate =
    WSelect nat
  | WIterate "KVList list" "error option" nat
  | WReturned "error option"
  | WExited

text \<open>
  \<open>streamKVs\<close>: at the \<open>select\<close> of the outer loop, inside \<open>slurp\<close> with the batch
  built so far, or returned with its result.
\<close>

datatype dstate = DSelect | DSlurp KVList | DReturned "error option"

text \<open>
  \<open>Orchestrate\<close> itself after it has started the goroutines: in \<open>wg.Wait()\<close>, at the
  \<open>select\<close> on \<open>errCh\<close>, at the receive from \<open>kvErr\<close>, or returned with its result.
\<close>

datatype ostate = OWait | OSelect | OKvErr | OReturned "error option"

text \<open>
  \<open>ctxDone\<close>: \<open>ctx.Done()\<close> is closed. \<open>ranges\<close>: the values \<open>produceRanges\<close> has still to
  send, \<open>None\<close> once it has closed \<open>rangeCh\<close> and returned. \<open>rangeCh\<close>, \<open>kvChan\<close>: the
  buffers of the two channels (capacity 3, oldest first) and whether they are closed.
  \<open>errCh\<close> and \<open>kvErr\<close> have capacity 1; \<open>kvErr\<close> holds the result of \<open>streamKVs\<close>, an error
  or nil. Two fields record the history and are not variables of the program:
  \<open>sent\<close>, the batches \<open>st.Send\<close> was called with, and \<open>reported\<close>, the errors that
  workers tried to put on \<open>errCh\<close>, both in order.
\<close>

record state =
  ctxDone :: bool
  ranges :: "keyRange list option"
  rangeCh :: "keyRange list"
  rangeChClosed :: bool
  workers :: "wstate list"
  kvChan :: "KVList list"
  kvChanClosed :: bool
  errCh :: "error option"
  drainer :: dstate
  kvErr :: "error option option"
  orch :: ostate
  sent :: "KVList list"
  reported :: "error list"

text \<open>
  The events. \<open>Cancel\<close>: the caller cancels the context. \<open>RangeSend\<close>, \<open>RangeClose\<close>:
  \<open>produceRanges\<close> sends its next range (lines 111, 116) or closes \<open>rangeCh\<close> (line 117).
  For worker \<open>i\<close>: \<open>KVsRecv\<close>, its \<open>select\<close> receives a range (line 183) and \<open>iterate\<close> runs
  up to its first send; \<open>KVsClosed\<close>, the receive finds \<open>rangeCh\<close> closed and \<open>produceKVs\<close>
  returns nil (line 186); \<open>KVsDone\<close>, the \<open>select\<close> takes \<open>ctx.Done()\<close> and \<open>produceKVs\<close>
  returns \<open>ctx.Err()\<close> (line 192); \<open>KVsSend\<close>, \<open>iterate\<close> sends a page on \<open>kvChan\<close> (lines
  170, 176); \<open>KVsIterated\<close>, \<open>iterate\<close> returns (lines 188 to 190); \<open>KVsExit\<close>, the goroutine
  reports the error, if any, without blocking and finishes (lines 291 to 296).
  \<open>StreamDone\<close>, \<open>StreamTick\<close>, \<open>StreamRecv\<close>, \<open>StreamClosed\<close>: the cases of the \<open>select\<close> of
  \<open>streamKVs\<close> (lines 234, 237, 247, 248). \<open>SlurpRecv\<close>: \<open>slurp\<close> receives one more page
  (line 208); \<open>SlurpSend\<close>: \<open>slurp\<close> leaves its loop and calls \<open>st.Send\<close> (lines 209 to
  222). \<open>OrchClose\<close>: \<open>wg.Wait()\<close> returns and \<open>kvChan\<close> is closed (lines 306, 307);
  \<open>OrchErr\<close>: the \<open>select\<close> on \<open>errCh\<close> (lines 309 to 313); \<open>OrchKvErr\<close>: the receive from
  \<open>kvErr\<close> and the return (lines 316 to 319).
\<close>

datatype event =
    Cancel
  | RangeSend
  | RangeClose
  | KVsRecv nat
  | KVsClosed nat
  | KVsDone nat
  | KVsSend nat
  | KVsIterated nat
  | KVsExit nat
  | StreamDone
  | StreamTick
  | StreamRecv
  | StreamClosed
  | SlurpRecv
  | SlurpSend
  | OrchClose
  | OrchErr
  | OrchKvErr

text \<open>The state when \<open>Orchestrate\<close> reaches \<open>wg.Wait()\<close> (line 306) and nothing has run yet.\<close>

definition init :: "Stream \<Rightarrow> int \<Rightarrow> bool \<Rightarrow> state" where
  "init st numGo cancelled =
     \<lparr>ctxDone = cancelled, ranges = Some (produceRanges st), rangeCh = [], rangeChClosed = False,
      workers = replicate (nat numGo) (WSelect 0), kvChan = [], kvChanClosed = False,
      errCh = None, drainer = DSelect, kvErr = None, orch = OWait, sent = [], reported = []\<rparr>"

definition set_worker :: "nat \<Rightarrow> wstate \<Rightarrow> state \<Rightarrow> state" where
  "set_worker i w s = s\<lparr>workers := (workers s)[i := w]\<rparr>"

definition worker :: "state \<Rightarrow> nat \<Rightarrow> wstate option" where
  "worker s i = (if i < length (workers s) then Some (workers s ! i) else None)"

text \<open>
  In \<open>step\<close>: a send blocks while the buffer holds 3 values; a receive from a closed
  channel still delivers the buffered values first; \<open>kvChan\<close> is closed only after
  \<open>wg.Wait()\<close>, so no worker sends on it closed; the non-blocking send of a worker's error
  (lines 292 to 295) keeps the value already in \<open>errCh\<close>; \<open>slurp\<close> calls \<open>st.Send\<close> as soon
  as a receive from \<open>kvChan\<close> would block or finds it closed. The ticker case of
  \<open>streamKVs\<close> only logs. A nil \<open>st.Send\<close> is not called in the model.
\<close>

text \<open>\<open>streamKVs\<close> returns \<open>r\<close>: its goroutine sends \<open>r\<close> on \<open>kvErr\<close> (line 304).\<close>

definition stream_return :: "error option \<Rightarrow> state \<Rightarrow> state" where
  "stream_return r s = s\<lparr>drainer := DReturned r, kvErr := Some r\<rparr>"

fun step :: "Stream \<Rightarrow> (KVList \<Rightarrow> nat) \<Rightarrow> event \<Rightarrow> state \<Rightarrow> state option" where
  "step st Size Cancel s = Some (s\<lparr>ctxDone := True\<rparr>)"
| "step st Size RangeSend s =
     (case ranges s of
        Some (kr # krs) \<Rightarrow>
          if length (rangeCh s) < 3
          then Some (s\<lparr>ranges := Some krs, rangeCh := rangeCh s @ [kr]\<rparr>)
          else None
      | _ \<Rightarrow> None)"
| "step st Size RangeClose s =
     (case ranges s of
        Some [] \<Rightarrow> Some (s\<lparr>ranges := None, rangeChClosed := True\<rparr>)
      | _ \<Rightarrow> None)"
| "step st Size (KVsRecv i) s =
     (case (worker s i, rangeCh s) of
        (Some (WSelect sz), kr # krs) \<Rightarrow>
          (case iterate st Size kr sz of
             (pages, r, sz') \<Rightarrow> Some (set_worker i (WIterate pages r sz') (s\<lparr>rangeCh := krs\<rparr>)))
      | _ \<Rightarrow> None)"
| "step st Size (KVsClosed i) s =
     (case (worker s i, rangeCh s) of
        (Some (WSelect sz), []) \<Rightarrow>
          if rangeChClosed s then Some (set_worker i (WReturned None) s) else None
      | _ \<Rightarrow> None)"
| "step st Size (KVsDone i) s =
     (case worker s i of
        Some (WSelect sz) \<Rightarrow>
          if ctxDone s then Some (set_worker i (WReturned (Some Cancellation)) s) else None
      | _ \<Rightarrow> None)"
| "step st Size (KVsSend i) s =
     (case worker s i of
        Some (WIterate (page # pages) r sz) \<Rightarrow>
          if length (kvChan s) < 3 \<and> \<not> kvChanClosed s
          then Some (set_worker i (WIterate pages r sz) (s\<lparr>kvChan := kvChan s @ [page]\<rparr>))
          else None
      | _ \<Rightarrow> None)"
| "step st Size (KVsIterated i) s =
     (case worker s i of
        Some (WIterate [] r sz) \<Rightarrow>
          (case r of
             Some err \<Rightarrow> Some (set_worker i (WReturned (Some err)) s)
           | None \<Rightarrow> Some (set_worker i (WSelect sz) s))
      | _ \<Rightarrow> None)"
| "step st Size (KVsExit i) s =
     (case worker s i of
        Some (WReturned r) \<Rightarrow>
          (case r of
             Some err \<Rightarrow>
               Some (set_worker i WExited
                 (s\<lparr>errCh := (case errCh s of None \<Rightarrow> Some err | Some first \<Rightarrow> Some first),
                    reported := reported s @ [err]\<rparr>))
           | None \<Rightarrow> Some (set_worker i WExited s))
      | _ \<Rightarrow> None)"
| "step st Size StreamDone s =
     (if drainer s = DSelect \<and> ctxDone s then Some (stream_return (Some Cancellation) s)
      else None)"
| "step st Size StreamTick s = (if drainer s = DSelect then Some s else None)"
| "step st Size StreamRecv s =
     (case (drainer s, kvChan s) of
        (DSelect, kvs # pages) \<Rightarrow> Some (s\<lparr>kvChan := pages, drainer := DSlurp kvs\<rparr>)
      | _ \<Rightarrow> None)"
| "step st Size StreamClosed s =
     (case (drainer s, kvChan s) of
        (DSelect, []) \<Rightarrow> if kvChanClosed s then Some (stream_return None s) else None
      | _ \<Rightarrow> None)"
| "step st Size SlurpRecv s =
     (case (drainer s, kvChan s) of
        (DSlurp batch, kvs # pages) \<Rightarrow> Some (s\<lparr>kvChan := pages, drainer := DSlurp (batch @ kvs)\<rparr>)
      | _ \<Rightarrow> None)"
| "step st Size SlurpSend s =
     (case (drainer s, kvChan s, Send st) of
        (DSlurp batch, [], Some send) \<Rightarrow>
          (case send (sent s) batch of
             Some err \<Rightarrow> Some (stream_return (Some err) (s\<lparr>sent := sent s @ [batch]\<rparr>))
           | None \<Rightarrow> Some (s\<lparr>drainer := DSelect, sent := sent s @ [batch]\<rparr>))
      | _ \<Rightarrow> None)"
| "step st Size OrchClose s =
     (if orch s = OWait \<and> list_all (\<lambda>w. w = WExited) (workers s)
      then Some (s\<lparr>kvChanClosed := True, orch := OSelect\<rparr>)
      else None)"
| "step st Size OrchErr s =
     (if orch s = OSelect
      then (case errCh s of
              Some err \<Rightarrow> Some (s\<lparr>errCh := None, orch := OReturned (Some err)\<rparr>)
            | None \<Rightarrow> Some (s\<lparr>orch := OKvErr\<rparr>))
      else None)"
| "step st Size OrchKvErr s =
     (case (orch s, kvErr s) of
        (OKvErr, Some r) \<Rightarrow> Some (s\<lparr>kvErr := None, orch := OReturned r\<rparr>)
      | _ \<Rightarrow> None)"

fun exec :: "Stream \<Rightarrow> (KVList \<Rightarrow> nat) \<Rightarrow> event list \<Rightarrow> state \<Rightarrow> state option" where
  "exec st Size [] s = Some s"
| "exec st Size (e # es) s =
     (case step st Size e s of None \<Rightarrow> None | Some s' \<Rightarrow> exec st Size es s')"

section \<open>Invariant of the pages in flight\<close>

text \<open>
  Every page that is in \<open>kvChan\<close>, that a worker inside \<open>iterate\<close> is about to send, that
  \<open>slurp\<close> has put in its batch, or that was given to \<open>st.Send\<close>, holds a record.
\<close>

definition worker_pages_ok :: "wstate \<Rightarrow> bool" where
  "worker_pages_ok w = (case w of WIterate pages r sz \<Rightarrow> list_all (\<lambda>p. p \<noteq> []) pages | _ \<Rightarrow> True)"

definition pages_ok :: "state \<Rightarrow> bool" where
  "pages_ok s =
     (list_all (\<lambda>p. p \<noteq> []) (kvChan s) \<and> list_all worker_pages_ok (workers s) \<and>
      (case drainer s of DSlurp batch \<Rightarrow> batch \<noteq> [] | _ \<Rightarrow> True) \<and>
      list_all (\<lambda>b. b \<noteq> []) (sent s))"

section \<open>Invariant of the error slot\<close>

text \<open>
  While \<open>Orchestrate\<close> has not read \<open>errCh\<close>, the channel holds the first error that a
  worker reported; once \<open>wg.Wait()\<close> has returned every worker is finished; \<open>Orchestrate\<close>
  waits for \<open>kvErr\<close> only when no worker reported an error; it returns the first reported
  error, or else the result of \<open>streamKVs\<close>; \<open>kvErr\<close> holds the result of \<open>streamKVs\<close>.
\<close>

definition first_reported :: "error list \<Rightarrow> error option" where
  "first_reported errs = (case errs of [] \<Rightarrow> None | e # _ \<Rightarrow> Some e)"

definition err_inv :: "state \<Rightarrow> bool" where
  "err_inv s =
     ((orch s = OWait \<or> orch s = OSelect \<longrightarrow> errCh s = first_reported (reported s)) \<and>
      (orch s \<noteq> OWait \<longrightarrow> list_all (\<lambda>w. w = WExited) (workers s)) \<and>
      (orch s = OKvErr \<longrightarrow> reported s = []) \<and>
      (\<forall>r. orch s = OReturned r \<longrightarrow>
         (case reported s of [] \<Rightarrow> drainer s = DReturned r | e # _ \<Rightarrow> r = Some e)) \<and>
      (\<forall>r. kvErr s = Some r \<longrightarrow> drainer s = DReturned r))"


section \<open>Runs that start cancelled and receive no range\<close>

text \<open>
  \<open>is_recv\<close>: the event is a worker's receive of a range. \<open>cancel_inv\<close> holds in every state
  of a run that starts with the context done and has no such event: no page exists, no
  batch was sent, \<open>streamKVs\<close> has not entered \<open>slurp\<close>, no worker is inside \<open>iterate\<close> or has
  returned nil, \<open>rangeCh\<close> is not both closed and empty, and every reported error is a
  cancellation. \<open>can_progress\<close>: a worker can return or finish, or \<open>Orchestrate\<close> can take
  its next step.
\<close>

definition is_recv :: "event \<Rightarrow> bool" where
  "is_recv e = (case e of KVsRecv i \<Rightarrow> True | _ \<Rightarrow> False)"

definition worker_cancelled :: "wstate \<Rightarrow> bool" where
  "worker_cancelled w =
     (case w of WSelect sz \<Rightarrow> True | WIterate pages r sz \<Rightarrow> False
      | WReturned r \<Rightarrow> r = Some Cancellation | WExited \<Rightarrow> True)"

definition drainer_cancelled :: "dstate \<Rightarrow> bool" where
  "drainer_cancelled d =
     (case d of DSelect \<Rightarrow> True | DSlurp batch \<Rightarrow> False
      | DReturned r \<Rightarrow> r = Some Cancellation \<or> r = None)"

definition cancel_inv :: "state \<Rightarrow> bool" where
  "cancel_inv s =
     (ctxDone s \<and> kvChan s = [] \<and> sent s = [] \<and>
      drainer_cancelled (drainer s) \<and>
      list_all worker_cancelled (workers s) \<and>
      (rangeChClosed s \<longrightarrow> rangeCh s \<noteq> []) \<and> (ranges s = Some [] \<longrightarrow> rangeCh s \<noteq> []) \<and>
      list_all (\<lambda>e. e = Cancellation) (reported s) \<and>
      (reported s = [] \<longrightarrow> list_all (\<lambda>w. w \<noteq> WExited) (workers s)))"

definition can_progress :: "Stream \<Rightarrow> (KVList \<Rightarrow> nat) \<Rightarrow> state \<Rightarrow> bool" where
  "can_progress st Size s =
     (step st Size OrchClose s \<noteq> None \<or> step st Size OrchErr s \<noteq> None \<or>
      list_ex (\<lambda>i. step st Size (KVsDone i) s \<noteq> None \<or> step st Size (KVsExit i) s \<noteq> None)
        [0..<length (workers s)])"

section \<open>Definitions that follow the specification's words\<close>

text \<open>
  \<open>take_incl P xs\<close> is \<open>xs\<close> up to and including its first element that satisfies \<open>P\<close>.
  \<open>retained\<close> states the default key-expansion policy as the specification does: walk
  forward while the cursor is valid and the entry is live and has the key, excluding the
  entry that ends the walk; stop after including an entry when the versions-to-keep limit
  is 1 or the entry is flagged discard-earlier-versions. \<open>copy_all\<close> turns entries into
  records, with the first failing value copy as the error. \<open>prefix_upper_bound\<close> is the
  least key above every key that has the prefix, \<open>[]\<close> when there is none (the prefix is
  empty or all bytes are 0xFF). \<open>snapshot_keys\<close> are the distinct keys present in the
  snapshot restricted to the prefix.
\<close>

fun take_incl :: "('a \<Rightarrow> bool) \<Rightarrow> 'a list \<Rightarrow> 'a list" where
  "take_incl P [] = []"
| "take_incl P (x # xs) = x # (if P x then [] else take_incl P xs)"

definition retained :: "int \<Rightarrow> bytes \<Rightarrow> bytes \<Rightarrow> Item list \<Rightarrow> Item list" where
  "retained nvk pfx key itr =
     take_incl (\<lambda>item. nvk = 1 \<or> DiscardEarlierVersions item)
       (takeWhile (\<lambda>item. prefix pfx (Key item) \<and> \<not> IsDeletedOrExpired item \<and> Key item = key) itr)"

fun copy_all :: "Item list \<Rightarrow> error + KVList" where
  "copy_all [] = Inr []"
| "copy_all (item # items) =
     (case ValueCopy item of
        Inl err \<Rightarrow> Inl err
      | Inr v \<Rightarrow> (case copy_all items of Inl err \<Rightarrow> Inl err | Inr kvs \<Rightarrow> Inr (kv_of item v # kvs)))"

definition prefix_upper_bound :: "bytes \<Rightarrow> bytes" where
  "prefix_upper_bound pfx =
     (case dropWhile (\<lambda>b. b = 0xFF) (rev pfx) of
        [] \<Rightarrow> []
      | b # bs \<Rightarrow> rev bs @ [b + 1])"

definition snapshot_keys :: "bytes \<Rightarrow> Item list \<Rightarrow> bytes list" where
  "snapshot_keys pfx snap = remdups (filter (prefix pfx) (map Key snap))"

definition the_value :: "Item \<Rightarrow> bytes" where
  "the_value item = (case ValueCopy item of Inr v \<Rightarrow> v | Inl _ \<Rightarrow> [])"

definition records_of :: "Item list \<Rightarrow> KVList" where
  "records_of items = map (\<lambda>item. kv_of item (the_value item)) items"

section \<open>The records of a whole run\<close>

text \<open>
  \<open>scan_spec\<close> is the scan of one range written over the item list alone: the records
  that \<open>iterate\<close> collects from position \<open>itr\<close> on with the default callback, when no
  value copy fails (\<open>copies_ok\<close>). \<open>in_range\<close>: the key has the prefix and lies below the
  right bound of the range. \<open>run_records\<close>: the records of all pages of all ranges of a
  run, in the order of the ranges, where \<open>szs kr\<close> is the value of \<open>size\<close> with which the
  worker that receives \<open>kr\<close> starts on it. \<open>snapshot_ok\<close>: the iterator yields the items
  sorted by key, no key is empty (badger rejects empty keys) and no value copy fails.
  \<open>splits_ok\<close>: the split keys are sorted, not below the prefix, and not empty.
\<close>

fun scan_spec :: "int \<Rightarrow> bytes \<Rightarrow> keyRange \<Rightarrow> bytes \<Rightarrow> Item list \<Rightarrow> KVList" where
  "scan_spec nvk pfx kr prevKey [] = []"
| "scan_spec nvk pfx kr prevKey (item # rest) =
     (if \<not> prefix pfx (Key item) then []
      else if Key item = prevKey then scan_spec nvk pfx kr prevKey rest
      else if right kr \<noteq> [] \<and> right kr \<le> Key item then []
      else records_of (retained nvk pfx (Key item) (item # rest)) @
           scan_spec nvk pfx kr (Key item) rest)"

definition copies_ok :: "Item list \<Rightarrow> bool" where
  "copies_ok items = list_all (\<lambda>item. case ValueCopy item of Inl err \<Rightarrow> False | Inr v \<Rightarrow> True) items"

definition in_range :: "bytes \<Rightarrow> keyRange \<Rightarrow> bytes \<Rightarrow> bool" where
  "in_range pfx kr k = (prefix pfx k \<and> (right kr = [] \<or> k < right kr))"

definition run_records :: "Stream \<Rightarrow> (KVList \<Rightarrow> nat) \<Rightarrow> (keyRange \<Rightarrow> nat) \<Rightarrow> KVList" where
  "run_records st Size szs =
     concat (map (\<lambda>kr. concat (fst (iterate st Size kr (szs kr)))) (produceRanges st))"

definition snapshot_ok :: "Stream \<Rightarrow> bool" where
  "snapshot_ok st =
     (sorted (map Key (itemsAt (db st) (readTs st))) \<and>
      list_all (\<lambda>item. Key item \<noteq> []) (itemsAt (db st) (readTs st)) \<and>
      copies_ok (itemsAt (db st) (readTs st)))"

definition splits_ok :: "Stream \<Rightarrow> bool" where
  "splits_ok st =
     (sorted (Prefix st # KeySplits (db st) (Prefix st)) \<and>
      list_all (\<lambda>key. key \<noteq> []) (KeySplits (db st) (Prefix st)))"

text \<open>
  \<open>range_records\<close>: the records of one range, from \<open>scan_spec\<close>. \<open>flight\<close>: the records
  that are in batches given to \<open>st.Send\<close>, in the batch of \<open>slurp\<close>, in \<open>kvChan\<close> or in
  pages that a worker has still to send. \<open>todo\<close>: the records of the ranges that are in
  \<open>rangeCh\<close> or still to be sent on it. \<open>all_records\<close>: the records of all ranges.
  \<open>default_run\<close>: no \<open>ChooseKey\<close>, the default \<open>KeyToList\<close>, and a snapshot as above.
  \<open>closing_inv\<close>: \<open>rangeCh\<close> is closed exactly when \<open>produceRanges\<close> has returned; when no
  error was reported and a worker has returned nil or finished, \<open>rangeCh\<close> is closed and
  empty; when \<open>streamKVs\<close> has returned nil, \<open>kvChan\<close> is closed and empty.
\<close>

definition range_records :: "Stream \<Rightarrow> keyRange \<Rightarrow> KVList" where
  "range_records st kr =
     scan_spec (NumVersionsToKeep (opt (db st))) (Prefix st) kr []
       (Seek (itemsAt (db st) (readTs st)) (left kr))"

definition worker_flight :: "wstate \<Rightarrow> KV multiset" where
  "worker_flight w = (case w of WIterate pages r sz \<Rightarrow> mset (concat pages) | _ \<Rightarrow> {#})"

definition flight :: "state \<Rightarrow> KV multiset" where
  "flight s =
     mset (concat (sent s)) + (case drainer s of DSlurp batch \<Rightarrow> mset batch | _ \<Rightarrow> {#}) +
     mset (concat (kvChan s)) + sum_list (map worker_flight (workers s))"

definition todo :: "Stream \<Rightarrow> state \<Rightarrow> KV multiset" where
  "todo st s =
     sum_list (map (\<lambda>kr. mset (range_records st kr))
       (rangeCh s @ (case ranges s of None \<Rightarrow> [] | Some krs \<Rightarrow> krs)))"

definition conserve_inv :: "Stream \<Rightarrow> state \<Rightarrow> bool" where
  "conserve_inv st s =
     (flight s + todo st s = sum_list (map (\<lambda>kr. mset (range_records st kr)) (produceRanges st)) \<and>
      (rangeChClosed s \<longleftrightarrow> ranges s = None) \<and>
      (reported s = [] \<and> list_ex (\<lambda>w. w = WExited \<or> w = WReturned None) (workers s) \<longrightarrow>
         rangeCh s = [] \<and> ranges s = None) \<and>
      (drainer s = DReturned None \<longrightarrow> kvChan s = [] \<and> kvChanClosed s))"

definition default_run :: "Stream \<Rightarrow> bool" where
  "default_run st = (ChooseKey st = None \<and> KeyToList st = None \<and> snapshot_ok st)"

definition all_records :: "Stream \<Rightarrow> KV multiset" where
  "all_records st = sum_list (map (\<lambda>kr. mset (range_records st kr)) (produceRanges st))"

definition closing_inv :: "state \<Rightarrow> bool" where
  "closing_inv s =
     ((rangeChClosed s \<longleftrightarrow> ranges s = None) \<and>
      (reported s = [] \<and> list_ex (\<lambda>w. w = WExited \<or> w = WReturned None) (workers s) \<longrightarrow>
         rangeCh s = [] \<and> ranges s = None) \<and>
      (drainer s = DReturned None \<longrightarrow> kvChan s = [] \<and> kvChanClosed s))"

section \<open>Example inputs\<close>

definition v5 :: Item where
  "v5 = \<lparr>Key = [0x6B], Version = 5, UserMeta = 0, ExpiresAt = 0, IsDeletedOrExpired = False,
         DiscardEarlierVersions = False, ValueCopy = Inr [0x35]\<rparr>"
definition v4 :: Item where
  "v4 = \<lparr>Key = [0x6B], Version = 4, UserMeta = 0, ExpiresAt = 0, IsDeletedOrExpired = False,
         DiscardEarlierVersions = False, ValueCopy = Inr [0x34]\<rparr>"
definition v3 :: Item where
  "v3 = \<lparr>Key = [0x6B], Version = 3, UserMeta = 0, ExpiresAt = 0, IsDeletedOrExpired = True,
         DiscardEarlierVersions = False, ValueCopy = Inr []\<rparr>"

definition db0 :: "bytes list \<Rightarrow> DB" where
  "db0 splits = \<lparr>opt = \<lparr>NumVersionsToKeep = 1, managedTxns = False\<rparr>,
      KeySplits = (\<lambda>_. splits), itemsAt = (\<lambda>_. [])\<rparr>"

definition st0 :: "bytes \<Rightarrow> bytes list \<Rightarrow> Stream" where
  "st0 pfx splits = \<lparr>Prefix = pfx, readTs = 0, db = db0 splits, ChooseKey = None,
      KeyToList = None, Send = None\<rparr>"

definition db_managed :: DB where
  "db_managed = \<lparr>opt = \<lparr>NumVersionsToKeep = 1, managedTxns = True\<rparr>,
      KeySplits = (\<lambda>_. []), itemsAt = (\<lambda>_. [])\<rparr>"

definition ex_stream :: "bytes \<Rightarrow> bytes list \<Rightarrow> Item list \<Rightarrow> int \<Rightarrow> Stream" where
  "ex_stream pfx splits snap nvk =
     \<lparr>Prefix = pfx, readTs = 0,
      db = \<lparr>opt = \<lparr>NumVersionsToKeep = nvk, managedTxns = False\<rparr>,
            KeySplits = (\<lambda>_. splits), itemsAt = (\<lambda>_. snap)\<rparr>,
      ChooseKey = None, KeyToList = None, Send = Some (\<lambda>_ _. None)\<rparr>"

definition ex_Size :: "KVList \<Rightarrow> nat" where
  "ex_Size list = sum_list (map (\<lambda>kv. length (kvKey kv) + length (kvValue kv)) list)"

definition run1 :: "event list" where
  "run1 = [RangeSend, RangeClose, KVsRecv 0, KVsSend 0, KVsIterated 0, KVsClosed 0, KVsExit 0,
           StreamRecv, SlurpSend, OrchClose, OrchErr, StreamClosed, OrchKvErr]"



definition run3 :: "event list" where
  "run3 = [RangeSend, KVsDone 0, KVsExit 0, StreamTick, RangeClose, OrchClose, OrchErr]"

definition live :: "bytes \<Rightarrow> 64 word \<Rightarrow> bytes \<Rightarrow> Item" where
  "live k v val = \<lparr>Key = k, Version = v, UserMeta = 0, ExpiresAt = 0, IsDeletedOrExpired = False,
         DiscardEarlierVersions = False, ValueCopy = Inr val\<rparr>"

definition st_split :: Stream where
  "st_split = ex_stream [] [[0x62], [0x63], [0x64], [0x65]] [] 1"

definition run_split :: "event list" where
  "run_split = [RangeSend, RangeSend, RangeSend, Cancel, KVsDone 0, KVsExit 0, OrchClose, OrchErr]"

definition st_full :: Stream where
  "st_full = ex_stream [] [[0x62], [0x63], [0x64]]
     [live [0x61] 1 [1], live [0x62] 1 [2], live [0x63] 1 [3], live [0x64] 1 [4]] 1"

definition run_full :: "event list" where
  "run_full = [RangeSend, RangeSend, RangeSend, KVsRecv 0, KVsSend 0, KVsIterated 0, RangeSend,
     RangeClose, KVsRecv 0, KVsSend 0, KVsIterated 0, KVsRecv 0, KVsSend 0, KVsIterated 0,
     KVsRecv 0, Cancel, StreamDone]"

definition blocked_split :: state where
  "blocked_split = \<lparr>ctxDone = True,
      ranges = Some [\<lparr>left = [0x64], right = [0x65]\<rparr>, \<lparr>left = [0x65], right = []\<rparr>],
      rangeCh = [\<lparr>left = [], right = [0x62]\<rparr>, \<lparr>left = [0x62], right = [0x63]\<rparr>,
        \<lparr>left = [0x63], right = [0x64]\<rparr>],
      rangeChClosed = False, workers = [WExited], kvChan = [], kvChanClosed = True,
      errCh = None, drainer = DSelect, kvErr = None, orch = OReturned (Some Cancellation),
      sent = [], reported = [Cancellation]\<rparr>"

definition blocked_full :: state where
  "blocked_full = \<lparr>ctxDone = True, ranges = None, rangeCh = [], rangeChClosed = True,
      workers = [WIterate [[kv_of (live [0x64] 1 [4]) [4]]] None 8],
      kvChan = [[kv_of (live [0x61] 1 [1]) [1]], [kv_of (live [0x62] 1 [2]) [2]],
        [kv_of (live [0x63] 1 [3]) [3]]],
      kvChanClosed = False, errCh = None, drainer = DReturned (Some Cancellation),
      kvErr = Some (Some Cancellation), orch = OWait, sent = [], reported = []\<rparr>"

definition blob :: "nat \<Rightarrow> bytes" where
  "blob n = replicate n 0"

definition st_page :: Stream where
  "st_page = ex_stream [] [[0x62]]
     [live [0x61] 1 (blob 3145728), live [0x62] 1 (blob 2097152), live [0x63] 1 [3]] 1"

definition dead :: "bytes \<Rightarrow> 64 word \<Rightarrow> Item" where
  "dead k v = \<lparr>Key = k, Version = v, UserMeta = 0, ExpiresAt = 0, IsDeletedOrExpired = True,
         DiscardEarlierVersions = False, ValueCopy = Inr []\<rparr>"

definition ex_snap :: "Item list" where
  "ex_snap = [live [0x61] 1 [1], dead [0x64] 2, v5, v4, v3, live [0x7A] 1 [9]]"

definition keep_all :: Stream where
  "keep_all = ex_stream [] [[0x6B]] ex_snap 2147483647"

definition single_version :: Stream where
  "single_version = ex_stream [] [[0x6B]] ex_snap 1"

definition run4 :: "event list" where
  "run4 = [RangeSend, RangeSend, RangeClose, KVsRecv 0, KVsSend 0, KVsIterated 0, KVsRecv 0,
     KVsSend 0, KVsIterated 0, KVsClosed 0, KVsExit 0, StreamRecv, SlurpRecv, SlurpSend,
     OrchClose, OrchErr, StreamClosed, OrchKvErr]"




section \<open>ToList\<close>

lemma Valid_simps [simp]:
  "Valid pfx [] = False" "Valid pfx (item # rest) = prefix pfx (Key item)"
  by (simp_all add: Valid_def)

lemma ToList_loop_retained:
  "fst (ToList_loop nvk pfx key itr list n) =
     (case copy_all (retained nvk pfx key itr) of
        Inl err \<Rightarrow> Inl err | Inr kvs \<Rightarrow> Inr (Some (list @ kvs)))"
proof (induction itr arbitrary: list n)
  case Nil
  show ?case by (simp add: retained_def)
next
  case (Cons item rest)
  show ?case
    using Cons.IH [of "list @ [kv_of item v]" "Suc n" for v]
    by (auto simp: retained_def Let_def split: sum.splits)
qed

lemma set_take_incl: "set (take_incl P xs) \<subseteq> set xs"
  by (induction xs) auto

lemma sorted_wrt_take_incl: "sorted_wrt R xs \<Longrightarrow> sorted_wrt R (take_incl P xs)"
  using set_take_incl by (induction xs) fastforce+

lemma sorted_wrt_takeWhile: "sorted_wrt R xs \<Longrightarrow> sorted_wrt R (takeWhile P xs)"
  by (induction xs) (auto dest: set_takeWhileD)

lemma sorted_wrt_retained:
  "sorted_wrt R itr \<Longrightarrow> sorted_wrt R (retained nvk pfx key itr)"
  by (simp add: retained_def sorted_wrt_take_incl sorted_wrt_takeWhile)

lemma copy_all_map:
  "copy_all items = Inr kvs \<Longrightarrow>
     map kvVersion kvs = map Version items \<and> map kvKey kvs = map Key items"
  by (induction items arbitrary: kvs) (auto simp: kv_of_def split: sum.splits)

lemma retained_keys: "item \<in> set (retained nvk pfx key itr) \<Longrightarrow> Key item = key"
  using set_take_incl [of _ "takeWhile (\<lambda>item. prefix pfx (Key item) \<and> \<not> IsDeletedOrExpired item \<and> Key item = key) itr"]
  by (auto simp: retained_def dest: set_takeWhileD)

text \<open>
  Claim C2. From any cursor position, \<open>ToList\<close> returns the records of the entries that
  the specification's walk retains (\<open>retained\<close>), in cursor order, or the error of the
  first retained entry whose value copy fails: the walk excludes the first entry that is
  deleted-or-expired or has another key, and everything after it, and ends after
  including an entry when the versions-to-keep limit is 1 or the entry is flagged
  discard-earlier-versions. Every record has the key, and when the cursor yields the
  versions in descending order the records are in descending-version order. The witness
  is the key with versions 5 (live), 4 (live), 3 (deleted) under a keep-all limit: the
  records are those of versions 5 and 4.
\<close>

theorem ToList_retained:
  "fst (ToList nvk pfx key itr) =
     (case copy_all (retained nvk pfx key itr) of
        Inl err \<Rightarrow> Inl err | Inr kvs \<Rightarrow> Inr (Some kvs))
   \<and> (\<forall>kvs. fst (ToList nvk pfx key itr) = Inr (Some kvs) \<longrightarrow>
        map kvVersion kvs = map Version (retained nvk pfx key itr) \<and>
        (\<forall>kv \<in> set kvs. kvKey kv = key) \<and>
        (sorted_wrt (\<lambda>a b. Version a > Version b) itr \<longrightarrow> sorted_wrt (>) (map kvVersion kvs)))"
proof -
  have eq: "fst (ToList nvk pfx key itr) =
     (case copy_all (retained nvk pfx key itr) of
        Inl err \<Rightarrow> Inl err | Inr kvs \<Rightarrow> Inr (Some kvs))"
    unfolding ToList_def using ToList_loop_retained [of nvk pfx key itr "[]" 0]
    by (auto split: sum.splits)
  have rest: "map kvVersion kvs = map Version (retained nvk pfx key itr) \<and>
        (\<forall>kv \<in> set kvs. kvKey kv = key) \<and>
        (sorted_wrt (\<lambda>a b. Version a > Version b) itr \<longrightarrow> sorted_wrt (>) (map kvVersion kvs))"
    if h: "fst (ToList nvk pfx key itr) = Inr (Some kvs)" for kvs
  proof -
    from h eq have c: "copy_all (retained nvk pfx key itr) = Inr kvs"
      by (simp split: sum.splits)
    note m = copy_all_map [OF c]
    have k: "\<forall>kv \<in> set kvs. kvKey kv = key"
    proof
      fix kv assume "kv \<in> set kvs"
      then have "kvKey kv \<in> set (map kvKey kvs)" by simp
      with m have "kvKey kv \<in> Key ` set (retained nvk pfx key itr)" by simp
      then show "kvKey kv = key" using retained_keys by auto
    qed
    have s: "sorted_wrt (>) (map kvVersion kvs)"
      if "sorted_wrt (\<lambda>a b. Version a > Version b) itr"
      using sorted_wrt_retained [OF that, of nvk pfx key] m
      by (simp add: sorted_wrt_map)
    from m k s show ?thesis by simp
  qed
  from eq rest show ?thesis by blast
qed

theorem ToList_retained_witness:
  "fst (ToList 2147483647 [] [0x6B] [v5, v4, v3]) = Inr (Some [kv_of v5 [0x35], kv_of v4 [0x34]])
   \<and> retained 2147483647 [] [0x6B] [v5, v4, v3] = [v5, v4]
   \<and> sorted_wrt (\<lambda>a b. Version a > Version b) [v5, v4, v3]
   \<and> sorted_wrt (>) (map kvVersion [kv_of v5 [0x35], kv_of v4 [0x34]])"
  using ToList_retained [of 2147483647 "[]" "[0x6B]" "[v5, v4, v3]"]
  by (simp add: retained_def v5_def v4_def v3_def kv_of_def)

section \<open>produceRanges\<close>

lemma produceRanges_loop_nonempty: "produceRanges_loop start splits \<noteq> []"
  by (cases splits) auto

lemma produceRanges_loop_length: "length (produceRanges_loop start splits) = Suc (length splits)"
  by (induction splits arbitrary: start) auto

lemma produceRanges_loop_hd: "left (hd (produceRanges_loop start splits)) = start"
  by (cases splits) auto

lemma produceRanges_loop_last: "right (last (produceRanges_loop start splits)) = []"
  by (induction splits arbitrary: start) (auto simp: produceRanges_loop_nonempty)

lemma produceRanges_loop_lefts: "map left (produceRanges_loop start splits) = start # splits"
  by (induction splits arbitrary: start) auto

lemma produceRanges_loop_rights: "map right (produceRanges_loop start splits) = splits @ [[]]"
  by (induction splits arbitrary: start) auto

lemma produceRanges_loop_chain:
  "Suc i < length (produceRanges_loop start splits) \<Longrightarrow>
     right (produceRanges_loop start splits ! i) = left (produceRanges_loop start splits ! Suc i)"
proof -
  let ?rs = "produceRanges_loop start splits"
  assume h: "Suc i < length ?rs"
  then have i: "i < length splits" by (simp add: produceRanges_loop_length)
  have "right (?rs ! i) = map right ?rs ! i" using h by simp
  also have "\<dots> = splits ! i" using i by (simp add: produceRanges_loop_rights nth_append)
  also have "\<dots> = (start # splits) ! Suc i" by simp
  also have "\<dots> = map left ?rs ! Suc i" by (simp add: produceRanges_loop_lefts)
  also have "\<dots> = left (?rs ! Suc i)" using h by simp
  finally show ?thesis .
qed

text \<open>
  The upper bound of a prefix, when there is one, is above every key with the prefix.
\<close>

lemma byte_less_succ:
  assumes "(b :: byte) \<noteq> 0xFF"
  shows "b < b + 1"
proof -
  have lt: "unat b < 256" using unsigned_less [of b, where ?'a = nat] by simp
  have "unat b \<noteq> 255"
  proof
    assume "unat b = 255"
    then have "(of_nat (unat b) :: 8 word) = of_nat 255" by simp
    then have "b = 0xFF" by simp
    with assms show False by simp
  qed
  with lt have "unat b + 1 < 256" by simp
  then have "unat (b + 1) = unat b + 1"
    using unat_add_lem [of b 1] by simp
  then show ?thesis by (simp add: word_less_nat_alt)
qed

lemma append_less_append_Cons:
  "(xs :: 'a::linorder list) @ (a # u) < xs @ [c] \<longleftrightarrow> a < c"
  by (induction xs) auto


lemma prefix_upper_bound_above:
  assumes "prefix pfx k" and "prefix_upper_bound pfx \<noteq> []"
  shows "k < prefix_upper_bound pfx"
proof -
  from assms(2) obtain b bs where d: "dropWhile (\<lambda>b. b = 0xFF) (rev pfx) = b # bs"
    by (cases "dropWhile (\<lambda>b. b = 0xFF) (rev pfx)") (auto simp: prefix_upper_bound_def)
  then have b: "b \<noteq> 0xFF" using hd_dropWhile [of "\<lambda>b. b = 0xFF" "rev pfx"] by auto
  have "rev pfx = takeWhile (\<lambda>b. b = 0xFF) (rev pfx) @ b # bs"
    using d by (metis takeWhile_dropWhile_id)
  then have "rev (rev pfx) = rev (takeWhile (\<lambda>b. b = 0xFF) (rev pfx) @ b # bs)"
    by simp
  then obtain t where p: "pfx = rev bs @ b # t"
    by simp
  from assms(1) obtain zs where "k = pfx @ zs"
    by (auto simp: prefix_def)
  with p have "k = rev bs @ b # (t @ zs)" by simp
  moreover have "prefix_upper_bound pfx = rev bs @ [b + 1]"
    using d by (simp add: prefix_upper_bound_def)
  ultimately show ?thesis
    using byte_less_succ [OF b] by (simp add: append_less_append_Cons)
qed

text \<open>
  Claim C3, as amended. For every prefix and every result of \<open>KeySplits\<close>, \<open>produceRanges\<close>
  sends a non-empty sequence of ranges, one more than there are split keys; the first
  left bound is the prefix, each right bound is the next left bound, and the last range
  always has an empty right bound, whether the prefix is bounded or not (the iterator's
  prefix option, not the range, ends the scan of the last range). With no split keys
  the single range is the one from the prefix with no right bound.
\<close>

theorem produceRanges_chain:
  "produceRanges st \<noteq> []
   \<and> length (produceRanges st) = Suc (length (KeySplits (db st) (Prefix st)))
   \<and> left (hd (produceRanges st)) = Prefix st
   \<and> (\<forall>i. Suc i < length (produceRanges st) \<longrightarrow>
          right (produceRanges st ! i) = left (produceRanges st ! Suc i))
   \<and> right (last (produceRanges st)) = []
   \<and> (KeySplits (db st) (Prefix st) = [] \<longrightarrow>
          produceRanges st = [\<lparr>left = Prefix st, right = []\<rparr>])"
  unfolding produceRanges_def
  using produceRanges_loop_chain [of _ "Prefix st" "KeySplits (db st) (Prefix st)"]
  by (simp add: produceRanges_loop_nonempty produceRanges_loop_length produceRanges_loop_hd
      produceRanges_loop_last)

theorem produceRanges_chain_witness:
  "produceRanges (st0 [0x61] [[0x61, 0x62], [0x61, 0x63]]) =
     [\<lparr>left = [0x61], right = [0x61, 0x62]\<rparr>, \<lparr>left = [0x61, 0x62], right = [0x61, 0x63]\<rparr>,
      \<lparr>left = [0x61, 0x63], right = []\<rparr>]
   \<and> produceRanges (st0 [0x61] []) = [\<lparr>left = [0x61], right = []\<rparr>]
   \<and> right (last (produceRanges (st0 [0x61] [[0x61, 0x62], [0x61, 0x63]]))) = []"
  using produceRanges_chain [of "st0 [0x61] [[0x61, 0x62], [0x61, 0x63]]"]
    produceRanges_chain [of "st0 [0x61] []"]
  by (simp add: produceRanges_def st0_def db0_def)

text \<open>
  The claim as stated fails: for the bounded prefix "a", whose upper bound is "b", the
  last (and only) range has an empty right bound.
\<close>

theorem produceRanges_bounded_prefix_counterexample:
  "produceRanges (st0 [0x61] []) = [\<lparr>left = [0x61], right = []\<rparr>]
   \<and> prefix_upper_bound [0x61] = [0x62]
   \<and> right (last (produceRanges (st0 [0x61] []))) \<noteq> prefix_upper_bound (Prefix (st0 [0x61] []))"
  by (simp add: produceRanges_def st0_def db0_def prefix_upper_bound_def)

section \<open>NewStream and NewStreamAt\<close>

text \<open>
  Claim C9. \<open>NewStream\<close> on a store in managed mode and \<open>NewStreamAt\<close> on a store that
  is not in managed mode panic instead of returning a stream; in the other two cases
  they return the stream, with no goroutine started (they are plain functions of the
  store).
\<close>

theorem NewStream_misuse:
  "(managedTxns (opt d) \<longrightarrow>
      NewStream d = Inl (Panic ''This API can not be called in managed mode.''))
   \<and> (\<not> managedTxns (opt d) \<longrightarrow>
      NewStreamAt d ts = Inl (Panic ''This API can only be called in managed mode.''))
   \<and> (\<not> managedTxns (opt d) \<longrightarrow>
      NewStream d = Inr \<lparr>Prefix = [], readTs = 0, db = d, ChooseKey = None,
        KeyToList = None, Send = None\<rparr>)
   \<and> (managedTxns (opt d) \<longrightarrow>
      NewStreamAt d ts = Inr \<lparr>Prefix = [], readTs = ts, db = d, ChooseKey = None,
        KeyToList = None, Send = None\<rparr>)"
  by (simp add: NewStream_def NewStreamAt_def)


theorem NewStream_misuse_witness:
  "managedTxns (opt db_managed)
   \<and> NewStream db_managed = Inl (Panic ''This API can not be called in managed mode.'')
   \<and> \<not> managedTxns (opt (db0 []))
   \<and> NewStreamAt (db0 []) 7 = Inl (Panic ''This API can only be called in managed mode.'')
   \<and> NewStream (db0 []) = Inr (st0 [] [])
   \<and> (\<exists>st. NewStreamAt db_managed 7 = Inr st)"
  using NewStream_misuse [of db_managed 7] NewStream_misuse [of "db0 []" 7]
  by (simp add: db_managed_def db0_def st0_def)

section \<open>Pages and batches hold records\<close>

lemma iterate_loop_pages_nonempty:
  "list_all (\<lambda>p. p \<noteq> [])
     (fst (iterate_loop chooseKey keyToList Size pfx kr itr prevKey outList sz))"
proof (induction chooseKey keyToList Size pfx kr itr prevKey outList sz
    rule: iterate_loop.induct)
  case (1 chooseKey keyToList Size pfx kr prevKey outList sz)
  show ?case by (simp add: flush_def)
next
  case (2 chooseKey keyToList Size pfx kr item rest prevKey outList sz)
  show ?case
    apply (subst iterate_loop.simps)
    using 2
    apply (auto simp: flush_def pushed_def split: prod.splits sum.splits simp del: iterate_loop.simps)
    done
qed

lemma iterate_pages_nonempty: "list_all (\<lambda>p. p \<noteq> []) (fst (iterate st Size kr sz))"
  by (simp add: iterate_def iterate_loop_pages_nonempty)

lemma iterate_pages_nonemptyD:
  "iterate st Size kr sz = (pages, r, sz') \<Longrightarrow> list_all (\<lambda>p. p \<noteq> []) pages"
  using iterate_pages_nonempty [of st Size kr sz] by simp

lemma list_all_update: "list_all P xs \<Longrightarrow> P x \<Longrightarrow> list_all P (xs[i := x])"
  by (induction xs arbitrary: i) (auto split: nat.splits)

lemma worker_SomeD: "worker s i = Some w \<Longrightarrow> i < length (workers s) \<and> workers s ! i = w"
  by (auto simp: worker_def split: if_splits)

lemma worker_ok: "list_all P (workers s) \<Longrightarrow> worker s i = Some w \<Longrightarrow> P w"
  by (auto simp: worker_def list_all_length split: if_splits)

lemma pages_ok_set_worker:
  "pages_ok s \<Longrightarrow> worker_pages_ok w \<Longrightarrow> pages_ok (set_worker i w s)"
  by (simp add: pages_ok_def set_worker_def list_all_update)

lemma step_pages_ok:
  assumes "step st Size e s = Some s'" and "pages_ok s"
  shows "pages_ok s'"
proof (cases e)
  case (KVsRecv i)
  with assms obtain sz kr krs pages r sz' where
    w: "worker s i = Some (WSelect sz)" and c: "rangeCh s = kr # krs" and
    it: "iterate st Size kr sz = (pages, r, sz')" and
    s': "s' = set_worker i (WIterate pages r sz') (s\<lparr>rangeCh := krs\<rparr>)"
    by (auto split: option.splits wstate.splits list.splits prod.splits)
  have "worker_pages_ok (WIterate pages r sz')"
    using iterate_pages_nonemptyD [OF it] by (simp add: worker_pages_ok_def)
  moreover have "pages_ok (s\<lparr>rangeCh := krs\<rparr>)"
    using assms(2) by (simp add: pages_ok_def)
  ultimately show ?thesis
    unfolding s' by (rule pages_ok_set_worker [rotated])
next
  case (KVsSend i)
  with assms obtain page pages r sz where
    w: "worker s i = Some (WIterate (page # pages) r sz)" and
    s': "s' = set_worker i (WIterate pages r sz) (s\<lparr>kvChan := kvChan s @ [page]\<rparr>)"
    by (auto split: option.splits wstate.splits list.splits if_splits)
  have "worker_pages_ok (WIterate (page # pages) r sz)"
    using assms(2) w by (auto simp: pages_ok_def intro: worker_ok)
  then have p: "page \<noteq> []" and "worker_pages_ok (WIterate pages r sz)"
    by (simp_all add: worker_pages_ok_def)
  moreover have "pages_ok (s\<lparr>kvChan := kvChan s @ [page]\<rparr>)"
    using assms(2) p by (simp add: pages_ok_def)
  ultimately show ?thesis
    unfolding s' by (simp add: pages_ok_set_worker)
qed (use assms in \<open>auto simp: pages_ok_def set_worker_def worker_pages_ok_def stream_return_def
        intro!: list_all_update
        split: option.splits wstate.splits list.splits if_splits dstate.splits prod.splits ostate.splits\<close>)


lemma exec_pages_ok:
  "exec st Size es s = Some s' \<Longrightarrow> pages_ok s \<Longrightarrow> pages_ok s'"
  by (induction es arbitrary: s) (auto split: option.splits dest: step_pages_ok)

lemma init_pages_ok: "pages_ok (init st numGo cancelled)"
  by (simp add: pages_ok_def init_def worker_pages_ok_def list_all_iff)

lemma iterate_loop_skip_empty:
  assumes "prefix pfx (Key item)" and "Key item \<noteq> prevKey"
    and "\<not> (length (right kr) > 0 \<and> right kr \<le> Key item)"
    and "chooseKey = None \<or> (\<exists>f. chooseKey = Some f \<and> f item)"
    and "keyToList (Key item) (item # rest) = (Inr l, n)" and "l = None \<or> l = Some []"
  shows "iterate_loop chooseKey keyToList Size pfx kr (item # rest) prevKey outList sz =
         iterate_loop chooseKey keyToList Size pfx kr (drop n (item # rest)) (Key item) outList sz"
  using assms by (subst iterate_loop.simps) (auto simp del: iterate_loop.simps)

text \<open>
  Claim C10. Every page that a call of \<open>iterate\<close> sends holds at least one record; a nil
  or empty result of the key-expansion callback leaves \<open>outList\<close> and \<open>size\<close> as they
  are and sends nothing; and in every state of every run of \<open>Orchestrate\<close> the pages in
  \<open>kvChan\<close>, the pages waiting to be sent, the batch that \<open>slurp\<close> is building and every
  batch that \<open>st.Send\<close> was called with hold at least one record. (Pages are values of
  \<open>new(pb.KVList)\<close>, never nil.)
\<close>

theorem pages_and_batches_nonempty:
  "list_all (\<lambda>p. p \<noteq> []) (fst (iterate st Size kr sz))
   \<and> (prefix pfx (Key item) \<and> Key item \<noteq> prevKey \<and>
        \<not> (length (right kr) > 0 \<and> right kr \<le> Key item) \<and>
        (chooseKey = None \<or> (\<exists>f. chooseKey = Some f \<and> f item)) \<and>
        keyToList (Key item) (item # rest) = (Inr l, n) \<and> (l = None \<or> l = Some []) \<longrightarrow>
        iterate_loop chooseKey keyToList Size pfx kr (item # rest) prevKey outList sz =
        iterate_loop chooseKey keyToList Size pfx kr (drop n (item # rest)) (Key item) outList sz)
   \<and> (exec st Size es (init st numGo cancelled) = Some s \<longrightarrow>
        list_all (\<lambda>p. p \<noteq> []) (kvChan s) \<and> list_all (\<lambda>b. b \<noteq> []) (sent s) \<and>
        list_all worker_pages_ok (workers s) \<and>
        (case drainer s of DSlurp batch \<Rightarrow> batch \<noteq> [] | _ \<Rightarrow> True))"
proof -
  have "pages_ok s" if "exec st Size es (init st numGo cancelled) = Some s"
    using exec_pages_ok [OF that init_pages_ok] .
  then show ?thesis
    using iterate_pages_nonempty [of st Size kr sz]
      iterate_loop_skip_empty [of pfx item prevKey kr chooseKey keyToList rest l n Size outList sz]
    by (simp add: pages_ok_def)
qed

lemma run1_exec:
  "exec (ex_stream [] [] [v5, v4, v3] 2147483647) ex_Size run1 (init (ex_stream [] [] [v5, v4, v3] 2147483647) 1 False)
   = Some \<lparr>ctxDone = False, ranges = None, rangeCh = [], rangeChClosed = True,
      workers = [WExited], kvChan = [], kvChanClosed = True,
      errCh = None, drainer = DReturned None, kvErr = None, orch = OReturned None,
      sent = [[kv_of v5 [0x35], kv_of v4 [0x34]]], reported = []\<rparr>"
  by (simp add: run1_def init_def ex_stream_def produceRanges_def iterate_def keyToList_of_def
      Seek_def ToList_def v5_def v4_def v3_def flush_def pushed_def pageSize_def ex_Size_def
      worker_def set_worker_def stream_return_def kv_of_def)


theorem pages_and_batches_nonempty_witness:
  "(case exec (ex_stream [] [] [v5, v4, v3] 2147483647) ex_Size run1
           (init (ex_stream [] [] [v5, v4, v3] 2147483647) 1 False) of
      None \<Rightarrow> False
    | Some s \<Rightarrow> sent s = [[kv_of v5 [0x35], kv_of v4 [0x34]]] \<and> orch s = OReturned None \<and>
        list_all (\<lambda>b. b \<noteq> []) (sent s))
   \<and> fst (iterate (ex_stream [] [] [v5, v4, v3] 2147483647) ex_Size \<lparr>left = [], right = []\<rparr> 0) =
       [[kv_of v5 [0x35], kv_of v4 [0x34]]]
   \<and> iterate_loop None (\<lambda>key itr. (Inr None, 1)) ex_Size [] \<lparr>left = [], right = []\<rparr>
         [v5, v4] [] [] 0 = ([], None, 0)"
  using pages_and_batches_nonempty [where st = "ex_stream [] [] [v5, v4, v3] 2147483647" and Size = ex_Size
      and kr = "\<lparr>left = [], right = []\<rparr>" and sz = 0 and pfx = "[]" and item = v5
      and prevKey = "[]" and chooseKey = None and keyToList = "\<lambda>key itr. (Inr None, 1)"
      and rest = "[v4]" and l = None and n = 1 and outList = "[]" and es = run1 and numGo = 1
      and cancelled = False
      and s = "the (exec (ex_stream [] [] [v5, v4, v3] 2147483647) ex_Size run1
           (init (ex_stream [] [] [v5, v4, v3] 2147483647) 1 False))"]
    run1_exec
  by (simp add: ex_stream_def iterate_def keyToList_of_def Seek_def ToList_def v5_def v4_def
      v3_def flush_def pushed_def pageSize_def ex_Size_def kv_of_def)

section \<open>The error slot\<close>

lemma init_err_inv: "err_inv (init st numGo cancelled)"
  by (simp add: err_inv_def init_def first_reported_def)

lemma all_exited_worker:
  "list_all (\<lambda>w. w = WExited) (workers s) \<Longrightarrow> worker s i = Some w \<Longrightarrow> w = WExited"
  by (auto simp: worker_def list_all_length split: if_splits)

lemma first_reported_snoc:
  "first_reported (errs @ [e]) = (case first_reported errs of None \<Rightarrow> Some e | Some f \<Rightarrow> Some f)"
  by (cases errs) (simp_all add: first_reported_def)

lemma step_err_inv:
  assumes "step st Size e s = Some s'" and "err_inv s"
  shows "err_inv s'"
proof (cases "orch s = OWait")
  case True
  with assms show ?thesis
    by (cases e)
      (auto simp: err_inv_def set_worker_def stream_return_def first_reported_snoc
        split: option.splits wstate.splits list.splits if_splits dstate.splits prod.splits)
next
  case False
  with assms(2) have ex: "list_all (\<lambda>w. w = WExited) (workers s)"
    by (simp add: err_inv_def)
  have nw: "worker s i \<noteq> Some (WSelect sz)" "worker s i \<noteq> Some (WIterate pages r sz)"
    "worker s i \<noteq> Some (WReturned r)" for i sz pages r
    using all_exited_worker [OF ex] by fastforce+
  from assms False nw show ?thesis
    by (cases e)
      (auto simp: err_inv_def stream_return_def first_reported_def
        split: option.splits wstate.splits list.splits if_splits dstate.splits prod.splits
          ostate.splits)
qed

lemma exec_err_inv:
  "exec st Size es s = Some s' \<Longrightarrow> err_inv s \<Longrightarrow> err_inv s'"
  by (induction es arbitrary: s) (auto split: option.splits dest: step_err_inv)













section \<open>Cancellation before the start\<close>

lemma produceRanges_nonempty: "produceRanges st \<noteq> []"
  by (simp add: produceRanges_def produceRanges_loop_nonempty)

lemma init_cancel_inv: "cancel_inv (init st numGo True)"
  by (simp add: cancel_inv_def init_def worker_cancelled_def drainer_cancelled_def list_all_iff
      produceRanges_nonempty)

lemma worker_in: "list_all P (workers s) \<Longrightarrow> worker s i = Some w \<Longrightarrow> P w"
  by (auto simp: worker_def list_all_length split: if_splits)

lemma list_all_update_exited:
  "i < length ws \<Longrightarrow> \<not> list_all (\<lambda>w. w \<noteq> WExited) (ws[i := WExited])"
  by (auto simp: list_all_length nth_list_update intro!: exI [of _ i])

lemma step_cancel_inv:
  assumes "step st Size e s = Some s'" and "cancel_inv s" and "\<not> is_recv e"
  shows "cancel_inv s'"
proof -
  have wc: "worker_cancelled w" if "worker s i = Some w" for i w
    using assms(2) that by (auto simp: cancel_inv_def intro: worker_in)
  show ?thesis
  proof (cases e)
    case (KVsExit i)
    with assms(1) obtain r where w: "worker s i = Some (WReturned r)"
      by (auto split: option.splits wstate.splits)
    from wc [OF w] have r: "r = Some Cancellation" by (simp add: worker_cancelled_def)
    from w have i: "i < length (workers s)" by (auto simp: worker_def split: if_splits)
    from assms(1) KVsExit w r have s': "s' = set_worker i WExited
          (s\<lparr>errCh := (case errCh s of None \<Rightarrow> Some Cancellation | Some first \<Rightarrow> Some first),
             reported := reported s @ [Cancellation]\<rparr>)"
      by simp
    show ?thesis
      using assms(2) unfolding s'
      by (simp add: cancel_inv_def set_worker_def list_all_update worker_cancelled_def)
  next
    case (KVsDone i)
    with assms(1) obtain sz where w: "worker s i = Some (WSelect sz)"
      and s': "s' = set_worker i (WReturned (Some Cancellation)) s"
      by (auto split: option.splits wstate.splits if_splits)
    from w have i: "i < length (workers s)" and n: "workers s ! i = WSelect sz"
      by (auto simp: worker_def split: if_splits)
    have "list_all (\<lambda>w. w \<noteq> WExited) ((workers s)[i := WReturned (Some Cancellation)])"
      if "list_all (\<lambda>w. w \<noteq> WExited) (workers s)"
      using that by (simp add: list_all_update)
    then show ?thesis
      using assms(2) unfolding s'
      by (simp add: cancel_inv_def set_worker_def list_all_update worker_cancelled_def)
  next
    case (KVsClosed i)
    with assms(1) have "rangeCh s = []" and "rangeChClosed s"
      by (auto split: option.splits wstate.splits if_splits list.splits)
    with assms(2) show ?thesis by (simp add: cancel_inv_def)
  next
    case (KVsSend i)
    with assms(1) obtain page pages r sz where w: "worker s i = Some (WIterate (page # pages) r sz)"
      by (auto split: option.splits wstate.splits if_splits list.splits)
    from wc [OF w] show ?thesis by (simp add: worker_cancelled_def)
  next
    case (KVsIterated i)
    with assms(1) obtain r sz where w: "worker s i = Some (WIterate [] r sz)"
      by (auto split: option.splits wstate.splits if_splits list.splits)
    from wc [OF w] show ?thesis by (simp add: worker_cancelled_def)
  next
    case (KVsRecv i)
    with assms show ?thesis by (simp add: is_recv_def)
  next
    case Cancel
    with assms show ?thesis by (auto simp: cancel_inv_def)
  next
    case RangeSend
    with assms show ?thesis
      by (auto simp: cancel_inv_def split: option.splits list.splits if_splits)
  next
    case RangeClose
    with assms show ?thesis
      by (auto simp: cancel_inv_def split: option.splits list.splits if_splits)
  next
    case StreamDone
    with assms show ?thesis
      by (auto simp: cancel_inv_def stream_return_def drainer_cancelled_def split: if_splits)
  next
    case StreamTick
    with assms show ?thesis by (auto split: if_splits)
  next
    case StreamRecv
    with assms show ?thesis
      by (auto simp: cancel_inv_def split: dstate.splits list.splits)
  next
    case StreamClosed
    with assms show ?thesis
      by (auto simp: cancel_inv_def stream_return_def drainer_cancelled_def
          split: dstate.splits list.splits if_splits)
  next
    case SlurpRecv
    with assms show ?thesis
      by (auto simp: cancel_inv_def split: dstate.splits list.splits)
  next
    case SlurpSend
    with assms show ?thesis
      by (auto simp: cancel_inv_def drainer_cancelled_def split: dstate.splits list.splits option.splits)
  next
    case OrchClose
    with assms show ?thesis by (auto simp: cancel_inv_def split: if_splits)
  next
    case OrchErr
    with assms show ?thesis by (auto simp: cancel_inv_def split: if_splits option.splits)
  next
    case OrchKvErr
    with assms show ?thesis
      by (auto simp: cancel_inv_def split: ostate.splits option.splits)
  qed
qed


lemma exec_cancel_inv:
  "exec st Size es s = Some s' \<Longrightarrow> cancel_inv s \<Longrightarrow> list_all (\<lambda>e. \<not> is_recv e) es \<Longrightarrow>
     cancel_inv s'"
  by (induction es arbitrary: s) (auto split: option.splits dest: step_cancel_inv)

lemma step_length_workers:
  "step st Size e s = Some s' \<Longrightarrow> length (workers s') = length (workers s)"
  by (cases e)
    (auto simp: set_worker_def stream_return_def
      split: option.splits wstate.splits list.splits if_splits dstate.splits prod.splits
        ostate.splits)

lemma exec_length_workers:
  "exec st Size es s = Some s' \<Longrightarrow> length (workers s') = length (workers s)"
  by (induction es arbitrary: s) (auto split: option.splits dest: step_length_workers)

lemma exited_and_not_exited:
  "list_all (\<lambda>w. w = WExited) ws \<Longrightarrow> list_all (\<lambda>w. w \<noteq> WExited) ws \<Longrightarrow> ws = []"
  by (cases ws) auto

lemma cancelled_return:
  assumes c: "cancel_inv s" and e: "err_inv s" and n: "workers s \<noteq> []"
    and r: "orch s = OReturned r"
  shows "r = Some Cancellation"
proof (cases "reported s")
  case Nil
  with c have "list_all (\<lambda>w. w \<noteq> WExited) (workers s)" by (simp add: cancel_inv_def)
  moreover from e r have "list_all (\<lambda>w. w = WExited) (workers s)" by (simp add: err_inv_def)
  ultimately show ?thesis using n exited_and_not_exited by blast
next
  case (Cons x errs)
  with c have "x = Cancellation" by (simp add: cancel_inv_def)
  with e r Cons show ?thesis by (simp add: err_inv_def)
qed

lemma not_all_exited:
  "\<not> list_all (\<lambda>w. w = WExited) ws \<Longrightarrow> \<exists>i < length ws. ws ! i \<noteq> WExited"
  by (auto simp: list_all_length)

lemma cancelled_progress:
  assumes c: "cancel_inv s" and e: "err_inv s" and n: "workers s \<noteq> []"
    and r: "\<forall>r. orch s \<noteq> OReturned r"
  shows "can_progress st Size s"
proof (cases "orch s")
  case OWait
  show ?thesis
  proof (cases "list_all (\<lambda>w. w = WExited) (workers s)")
    case True
    with OWait show ?thesis by (simp add: can_progress_def)
  next
    case False
    then obtain i where i: "i < length (workers s)" and w: "workers s ! i \<noteq> WExited"
      using not_all_exited by blast
    from c i have "worker_cancelled (workers s ! i)" by (simp add: cancel_inv_def list_all_length)
    with w c i have "step st Size (KVsDone i) s \<noteq> None \<or> step st Size (KVsExit i) s \<noteq> None"
      by (cases "workers s ! i") (auto simp: worker_cancelled_def worker_def cancel_inv_def)
    with i have "\<exists>i \<in> set [0..<length (workers s)].
        step st Size (KVsDone i) s \<noteq> None \<or> step st Size (KVsExit i) s \<noteq> None"
      by (intro bexI [of _ i]) (simp_all del: step.simps)
    then show ?thesis unfolding can_progress_def list_ex_iff by blast
  qed
next
  case OSelect
  then show ?thesis by (simp add: can_progress_def split: option.splits)
next
  case OKvErr
  with e have "reported s = []" and "list_all (\<lambda>w. w = WExited) (workers s)"
    by (simp_all add: err_inv_def)
  moreover from this c have "list_all (\<lambda>w. w \<noteq> WExited) (workers s)" by (simp add: cancel_inv_def)
  ultimately show ?thesis using n exited_and_not_exited by blast
next
  case (OReturned x)
  with r show ?thesis by simp
qed

text \<open>
  Claim C8, as amended. In every run of \<open>Orchestrate\<close> with at least one worker that starts
  with the context already done and in which no worker receives a range (every worker's
  \<open>select\<close> takes the \<open>ctx.Done()\<close> case), \<open>st.Send\<close> is never called, the value that
  \<open>Orchestrate\<close> returns is the cancellation error, and as long as it has not returned
  some worker or \<open>Orchestrate\<close> itself can take its next step.
\<close>

theorem cancelled_before_start:
  "exec st Size es (init st numGo True) = Some s \<and> 0 < numGo \<and> list_all (\<lambda>e. \<not> is_recv e) es \<longrightarrow>
     sent s = [] \<and> (\<forall>r. orch s = OReturned r \<longrightarrow> r = Some Cancellation) \<and>
     ((\<forall>r. orch s \<noteq> OReturned r) \<longrightarrow> can_progress st Size s)"
proof (intro impI, elim conjE)
  assume x: "exec st Size es (init st numGo True) = Some s" and n: "0 < numGo"
    and es: "list_all (\<lambda>e. \<not> is_recv e) es"
  have c: "cancel_inv s" using exec_cancel_inv [OF x init_cancel_inv es] .
  have e: "err_inv s" using exec_err_inv [OF x init_err_inv] .
  have "length (workers s) = nat numGo"
    using exec_length_workers [OF x] by (simp add: init_def)
  with n have w: "workers s \<noteq> []" by auto
  from c have "sent s = []" by (simp add: cancel_inv_def)
  then show "sent s = [] \<and> (\<forall>r. orch s = OReturned r \<longrightarrow> r = Some Cancellation) \<and>
     ((\<forall>r. orch s \<noteq> OReturned r) \<longrightarrow> can_progress st Size s)"
    using cancelled_return [OF c e w] cancelled_progress [OF c e w] by blast
qed

lemma run3_exec:
  "exec (ex_stream [] [] [v5, v4, v3] 2147483647) ex_Size run3 (init (ex_stream [] [] [v5, v4, v3] 2147483647) 1 True)
   = Some \<lparr>ctxDone = True, ranges = None, rangeCh = [\<lparr>left = [], right = []\<rparr>],
      rangeChClosed = True, workers = [WExited], kvChan = [], kvChanClosed = True,
      errCh = None, drainer = DSelect, kvErr = None, orch = OReturned (Some Cancellation),
      sent = [], reported = [Cancellation]\<rparr>"
  by (simp add: run3_def init_def ex_stream_def produceRanges_def
      worker_def set_worker_def stream_return_def)

theorem cancelled_before_start_witness:
  "(case exec (ex_stream [] [] [v5, v4, v3] 2147483647) ex_Size run3
           (init (ex_stream [] [] [v5, v4, v3] 2147483647) 1 True) of
      None \<Rightarrow> False
    | Some s \<Rightarrow> sent s = [] \<and> orch s = OReturned (Some Cancellation))
   \<and> (0::int) < 1 \<and> list_all (\<lambda>e. \<not> is_recv e) run3
   \<and> can_progress (ex_stream [] [] [v5, v4, v3] 2147483647) ex_Size (init (ex_stream [] [] [v5, v4, v3] 2147483647) 1 True)"
  using cancelled_before_start [where st = "ex_stream [] [] [v5, v4, v3] 2147483647" and Size = ex_Size
      and es = run3 and numGo = 1
      and s = "the (exec (ex_stream [] [] [v5, v4, v3] 2147483647) ex_Size run3
           (init (ex_stream [] [] [v5, v4, v3] 2147483647) 1 True))"]
    cancelled_before_start [where st = "ex_stream [] [] [v5, v4, v3] 2147483647" and Size = ex_Size
      and es = "[]" and numGo = 1 and s = "init (ex_stream [] [] [v5, v4, v3] 2147483647) 1 True"]
    run3_exec
  by (simp add: run3_def is_recv_def init_def)

text \<open>
  The claim as stated fails: with the context done from the start, the \<open>select\<close> of the
  worker may still take the range that \<open>produceRanges\<close> has sent, and the \<open>select\<close> of
  \<open>streamKVs\<close> the page; in this run \<open>st.Send\<close> is called with the records of versions 5
  and 4 and \<open>Orchestrate\<close> returns nil.
\<close>

theorem cancelled_before_start_counterexample:
  "exec (ex_stream [] [] [v5, v4, v3] 2147483647) ex_Size run1 (init (ex_stream [] [] [v5, v4, v3] 2147483647) 1 True)
   = Some \<lparr>ctxDone = True, ranges = None, rangeCh = [], rangeChClosed = True,
      workers = [WExited], kvChan = [], kvChanClosed = True,
      errCh = None, drainer = DReturned None, kvErr = None, orch = OReturned None,
      sent = [[kv_of v5 [0x35], kv_of v4 [0x34]]], reported = []\<rparr>"
  by (simp add: run1_def init_def ex_stream_def produceRanges_def iterate_def keyToList_of_def
      Seek_def ToList_def v5_def v4_def v3_def flush_def pushed_def pageSize_def ex_Size_def
      worker_def set_worker_def stream_return_def kv_of_def)

section \<open>Sends that do not watch the context\<close>

lemma run_split_exec: "exec st_split ex_Size run_split (init st_split 1 False) = Some blocked_split"
  by (simp add: run_split_def st_split_def blocked_split_def init_def ex_stream_def
      produceRanges_def worker_def set_worker_def stream_return_def)

lemma run_full_exec: "exec st_full ex_Size run_full (init st_full 1 False) = Some blocked_full"
  by (simp add: run_full_def st_full_def blocked_full_def init_def ex_stream_def
      produceRanges_def iterate_def keyToList_of_def Seek_def ToList_def live_def flush_def
      pushed_def pageSize_def ex_Size_def worker_def set_worker_def stream_return_def kv_of_def)

lemma blocked_full_stuck:
  "step st_full ex_Size e blocked_full = None \<or> step st_full ex_Size e blocked_full = Some blocked_full"
  by (cases e) (auto simp: blocked_full_def worker_def split: if_splits)

text \<open>
  The two receives do watch the context: when it is done, a worker at its \<open>select\<close> and
  \<open>streamKVs\<close> at its \<open>select\<close> can return the cancellation error at once.
\<close>

lemma receives_watch_context:
  "ctxDone s \<Longrightarrow> worker s i = Some (WSelect sz) \<Longrightarrow>
     step st Size (KVsDone i) s = Some (set_worker i (WReturned (Some Cancellation)) s)"
  "ctxDone s \<Longrightarrow> drainer s = DSelect \<Longrightarrow>
     step st Size StreamDone s = Some (stream_return (Some Cancellation) s)"
  by simp_all

text \<open>
  Claim C6 does not hold of the code. The receives of \<open>produceKVs\<close> and \<open>streamKVs\<close> are in
  a \<open>select\<close> with \<open>ctx.Done()\<close>, the sends of \<open>produceRanges\<close> (lines 111 and 116) and
  of \<open>iterate\<close> (lines 170 and 176) are plain sends. First run: five ranges, one worker;
  after three sends the context is cancelled, the worker returns, \<open>Orchestrate\<close> returns
  the cancellation, and \<open>produceRanges\<close> stays blocked on the full \<open>rangeCh\<close> with two ranges
  to send and no receiver left. Second run: four ranges of one key each, one worker;
  three pages fill \<open>kvChan\<close>, the worker is about to send the fourth when the context is
  cancelled and \<open>streamKVs\<close> returns; the worker stays blocked in its send, \<open>wg.Wait()\<close>
  never returns, and no event changes the state any more.
\<close>

theorem sends_ignore_cancellation:
  "exec st_split ex_Size run_split (init st_split 1 False) = Some blocked_split
   \<and> ctxDone blocked_split \<and> length (rangeCh blocked_split) = 3
   \<and> ranges blocked_split = Some [\<lparr>left = [0x64], right = [0x65]\<rparr>, \<lparr>left = [0x65], right = []\<rparr>]
   \<and> step st_split ex_Size RangeSend blocked_split = None
   \<and> step st_split ex_Size RangeClose blocked_split = None
   \<and> list_all (\<lambda>w. w = WExited) (workers blocked_split)
   \<and> exec st_full ex_Size run_full (init st_full 1 False) = Some blocked_full
   \<and> ctxDone blocked_full \<and> length (kvChan blocked_full) = 3
   \<and> workers blocked_full = [WIterate [[kv_of (live [0x64] 1 [4]) [4]]] None 8]
   \<and> step st_full ex_Size (KVsSend 0) blocked_full = None
   \<and> step st_full ex_Size (KVsDone 0) blocked_full = None
   \<and> orch blocked_full = OWait
   \<and> (\<forall>e. step st_full ex_Size e blocked_full = None \<or>
            step st_full ex_Size e blocked_full = Some blocked_full)"
  using run_split_exec run_full_exec blocked_full_stuck
  by (simp add: blocked_split_def blocked_full_def worker_def)


section \<open>The size counter across ranges\<close>

lemma length_blob: "length (blob n) = n"
  by (simp add: blob_def)

text \<open>
  Claim C4 does not hold of the code. \<open>size\<close> is a variable of \<open>produceKVs\<close>, set to 0
  where a full page is sent (line 172) but not where the trailing page of a range is
  sent (lines 175 to 177). Here the sizes are the bytes of key and value. One worker
  scans two ranges: the first holds key "a" with 3 MiB, sent as trailing page; the
  second holds "b" with 2 MiB and "c". With the 3 MiB carried over, the record of "b" is
  sent as a page of its own, of 2 MiB, before its range is exhausted. A worker that
  starts on the second range sends "b" and "c" in one page.
\<close>

theorem page_cut_by_carried_size:
  "produceRanges st_page = [\<lparr>left = [], right = [0x62]\<rparr>, \<lparr>left = [0x62], right = []\<rparr>]
   \<and> produceKVs_ranges st_page ex_Size (produceRanges st_page) 0 =
       ([[kv_of (live [0x61] 1 (blob 3145728)) (blob 3145728)],
         [kv_of (live [0x62] 1 (blob 2097152)) (blob 2097152)],
         [kv_of (live [0x63] 1 [3]) [3]]], None)
   \<and> ex_Size [kv_of (live [0x62] 1 (blob 2097152)) (blob 2097152)] = 2097153
   \<and> pageSize = 4194304
   \<and> iterate st_page ex_Size \<lparr>left = [0x62], right = []\<rparr> 0 =
       ([[kv_of (live [0x62] 1 (blob 2097152)) (blob 2097152), kv_of (live [0x63] 1 [3]) [3]]],
        None, 2097155)"
  by (simp add: st_page_def ex_stream_def produceRanges_def iterate_def keyToList_of_def
      Seek_def ToList_def live_def flush_def pushed_def pageSize_def ex_Size_def kv_of_def
      length_blob)

section \<open>Coverage of the keys\<close>

lemma copy_all_records_of:
  "copies_ok items \<Longrightarrow> copy_all items = Inr (records_of items)"
  by (induction items) (auto simp: copies_ok_def records_of_def the_value_def split: sum.splits)

lemma copies_ok_subset: "copies_ok xs \<Longrightarrow> set ys \<subseteq> set xs \<Longrightarrow> copies_ok ys"
  by (auto simp: copies_ok_def list_all_iff)

lemma set_retained: "set (retained nvk pfx key itr) \<subseteq> set itr"
  using set_take_incl [of _ "takeWhile (\<lambda>item. prefix pfx (Key item) \<and> \<not> IsDeletedOrExpired item \<and> Key item = key) itr"]
  by (auto simp: retained_def dest: set_takeWhileD)

lemma ToList_records_of:
  assumes "copies_ok itr"
  shows "fst (ToList nvk pfx key itr) = Inr (Some (records_of (retained nvk pfx key itr)))"
proof -
  have "copies_ok (retained nvk pfx key itr)"
    using assms set_retained by (rule copies_ok_subset)
  then have "copy_all (retained nvk pfx key itr) = Inr (records_of (retained nvk pfx key itr))"
    by (rule copy_all_records_of)
  then show ?thesis
    unfolding ToList_def using ToList_loop_retained [of nvk pfx key itr "[]" 0] by simp
qed

lemma ToList_loop_count:
  "n \<le> snd (ToList_loop nvk pfx key itr list n) \<and>
   snd (ToList_loop nvk pfx key itr list n) \<le> n + length (takeWhile (\<lambda>i. Key i = key) itr)"
proof (induction itr arbitrary: list n)
  case Nil
  show ?case by simp
next
  case (Cons item rest)
  show ?case
    using Cons.IH [where list = "list @ [kv_of item (projr (ValueCopy item))]" and n = "Suc n"]
    by (auto simp: Let_def split: sum.splits)
qed

lemma ToList_count: "snd (ToList nvk pfx key itr) \<le> length (takeWhile (\<lambda>i. Key i = key) itr)"
  unfolding ToList_def using ToList_loop_count [of 0 nvk pfx key itr "[]"] by simp

lemma iterate_loop_skip:
  assumes "\<forall>i \<in> set xs. Key i = prevKey" and "prefix pfx prevKey"
  shows "iterate_loop chooseKey keyToList Size pfx kr (xs @ ys) prevKey outList sz =
         iterate_loop chooseKey keyToList Size pfx kr ys prevKey outList sz"
  using assms by (induction xs) simp_all

lemma iterate_loop_skip_drop:
  assumes n: "n \<le> length (takeWhile (\<lambda>i. Key i = k) (item # rest))" and k: "Key item = k"
    and p: "prefix pfx k"
  shows "iterate_loop chooseKey keyToList Size pfx kr (drop n (item # rest)) k outList sz =
         iterate_loop chooseKey keyToList Size pfx kr rest k outList sz"
proof -
  let ?g = "takeWhile (\<lambda>i. Key i = k) rest" and ?r = "dropWhile (\<lambda>i. Key i = k) rest"
  have rest: "rest = ?g @ ?r" by simp
  have g: "\<forall>i \<in> set ?g. Key i = k" by (auto dest: set_takeWhileD)
  have r: "iterate_loop chooseKey keyToList Size pfx kr rest k outList sz =
        iterate_loop chooseKey keyToList Size pfx kr ?r k outList sz"
    using iterate_loop_skip [OF g p, of chooseKey keyToList Size kr ?r outList sz] by simp
  show ?thesis
  proof (cases n)
    case 0
    have "iterate_loop chooseKey keyToList Size pfx kr ([item] @ rest) k outList sz =
        iterate_loop chooseKey keyToList Size pfx kr rest k outList sz"
      by (rule iterate_loop_skip) (use k p in auto)
    with 0 show ?thesis by simp
  next
    case (Suc m)
    with n k have m: "m \<le> length ?g" by simp
    have d: "drop m rest = drop m ?g @ ?r"
      using m by (subst rest) (simp del: takeWhile_dropWhile_id)
    have "\<forall>i \<in> set (drop m ?g). Key i = k" using g by (auto dest: in_set_dropD)
    then have "iterate_loop chooseKey keyToList Size pfx kr (drop m ?g @ ?r) k outList sz =
        iterate_loop chooseKey keyToList Size pfx kr ?r k outList sz"
      using p by (rule iterate_loop_skip)
    with Suc d r show ?thesis by simp
  qed
qed

lemma concat_flush: "concat (flush outList) = outList"
  by (simp add: flush_def)

lemma copies_ok_Cons: "copies_ok (item # rest) \<Longrightarrow> copies_ok rest"
  by (simp add: copies_ok_def)

lemma iterate_loop_scan_spec:
  assumes "copies_ok itr"
  shows "\<exists>pages sz'.
     iterate_loop None (ToList nvk pfx) Size pfx kr itr prevKey outList sz = (pages, None, sz') \<and>
     concat pages = outList @ scan_spec nvk pfx kr prevKey itr"
  using assms
proof (induction itr arbitrary: prevKey outList sz)
  case Nil
  show ?case by (simp add: concat_flush)
next
  case (Cons item rest)
  let ?k = "Key item"
  from Cons.prems have ok: "copies_ok rest" by (rule copies_ok_Cons)
  note IH = Cons.IH [OF ok]
  show ?case
  proof (cases "\<not> prefix pfx ?k \<or> (?k \<noteq> prevKey \<and> right kr \<noteq> [] \<and> right kr \<le> ?k)")
    case True
    then show ?thesis by (auto simp: concat_flush)
  next
    case False
    then have p: "prefix pfx ?k" and b: "?k = prevKey \<or> \<not> (right kr \<noteq> [] \<and> right kr \<le> ?k)"
      by auto
    show ?thesis
    proof (cases "?k = prevKey")
      case True
      with p IH [of prevKey outList sz] show ?thesis by simp
    next
      case False
      with b have b': "\<not> (right kr \<noteq> [] \<and> right kr \<le> ?k)" by simp
      let ?kvs = "records_of (retained nvk pfx ?k (item # rest))"
      obtain n where t: "ToList nvk pfx ?k (item # rest) = (Inr (Some ?kvs), n)"
        and n: "n \<le> length (takeWhile (\<lambda>i. Key i = ?k) (item # rest))"
        using ToList_records_of [OF Cons.prems, of nvk pfx ?k]
          ToList_count [of nvk pfx ?k "item # rest"]
        by (cases "ToList nvk pfx ?k (item # rest)") simp
      have skip: "iterate_loop None (ToList nvk pfx) Size pfx kr (drop n (item # rest)) ?k out s =
          iterate_loop None (ToList nvk pfx) Size pfx kr rest ?k out s" for out s
        using n refl p by (rule iterate_loop_skip_drop)
      have unf: "iterate_loop None (ToList nvk pfx) Size pfx kr (item # rest) prevKey outList sz =
          (if ?kvs = [] then iterate_loop None (ToList nvk pfx) Size pfx kr rest ?k outList sz
           else if pageSize \<le> sz + Size ?kvs
           then pushed (outList @ ?kvs) (iterate_loop None (ToList nvk pfx) Size pfx kr rest ?k [] 0)
           else iterate_loop None (ToList nvk pfx) Size pfx kr rest ?k (outList @ ?kvs)
                  (sz + Size ?kvs))"
        using p False b' by (subst iterate_loop.simps) (auto simp add: t skip simp del: iterate_loop.simps)
      have spec: "scan_spec nvk pfx kr prevKey (item # rest) = ?kvs @ scan_spec nvk pfx kr ?k rest"
        using p False b' by auto
      show ?thesis
      proof (cases "?kvs = []")
        case True
        with IH [of ?k outList sz] show ?thesis
          unfolding unf spec by simp
      next
        case ne: False
        show ?thesis
        proof (cases "pageSize \<le> sz + Size ?kvs")
          case True
          from IH [of ?k "[]" 0] obtain pages sz' where
            r: "iterate_loop None (ToList nvk pfx) Size pfx kr rest ?k [] 0 = (pages, None, sz')"
            and c: "concat pages = scan_spec nvk pfx kr ?k rest"
            by auto
          have "iterate_loop None (ToList nvk pfx) Size pfx kr (item # rest) prevKey outList sz =
              ((outList @ ?kvs) # pages, None, sz')"
            unfolding unf using ne True r by (simp add: pushed_def)
          moreover have "concat ((outList @ ?kvs) # pages) =
              outList @ scan_spec nvk pfx kr prevKey (item # rest)"
            unfolding spec using c by simp
          ultimately show ?thesis by blast
        next
          case False
          with ne IH [of ?k "outList @ ?kvs" "sz + Size ?kvs"] show ?thesis
            unfolding unf spec by simp
        qed
      qed
    qed
  qed
qed

lemma prefix_le: "prefix pfx (k :: bytes) \<Longrightarrow> pfx \<le> k"
proof (induction pfx arbitrary: k)
  case Nil
  show ?case by simp
next
  case (Cons p ps)
  then show ?case by (cases k) auto
qed

lemma prefix_between:
  "pfx \<le> a \<Longrightarrow> a \<le> b \<Longrightarrow> prefix pfx b \<Longrightarrow> prefix pfx (a :: bytes)"
proof (induction pfx arbitrary: a b)
  case Nil
  show ?case by simp
next
  case (Cons p ps)
  from Cons.prems(3) obtain b' where b: "b = p # b'" and pb: "prefix ps b'"
    by (cases b) auto
  from Cons.prems(1) obtain x a' where a: "a = x # a'"
    by (cases a) auto
  from Cons.prems(1,2) a b have "x = p" and "ps \<le> a'" and "a' \<le> b'"
    by (auto split: if_splits)
  with Cons.IH [of a' b'] pb a show ?case by simp
qed

lemma records_of_retained_keys:
  "kv \<in> set (records_of (retained nvk pfx k itr)) \<Longrightarrow> kvKey kv = k"
  using retained_keys [of _ nvk pfx k itr] by (auto simp: records_of_def kv_of_def)

lemma filter_records_of_retained:
  "filter (\<lambda>kv. kvKey kv = k') (records_of (retained nvk pfx k itr)) =
     (if k' = k then records_of (retained nvk pfx k itr) else [])"
  using records_of_retained_keys [of _ nvk pfx k itr]
  by (auto simp: filter_empty_conv intro!: filter_True)

lemma takeWhile_filter_key:
  "sorted (map Key itr) \<Longrightarrow> \<forall>i \<in> set itr. k \<le> Key i \<Longrightarrow>
     takeWhile (\<lambda>i. P i \<and> Key i = k) (filter (\<lambda>i. Key i = k) itr) =
     takeWhile (\<lambda>i. P i \<and> Key i = k) itr"
proof (induction itr)
  case Nil
  show ?case by simp
next
  case (Cons item rest)
  show ?case
  proof (cases "Key item = k")
    case True
    with Cons show ?thesis by simp
  next
    case False
    with Cons.prems have "\<forall>i \<in> set rest. Key i \<noteq> k" by fastforce
    then have "filter (\<lambda>i. Key i = k) rest = []" by (simp add: filter_empty_conv)
    with False show ?thesis by simp
  qed
qed

lemma retained_filter_key:
  "sorted (map Key itr) \<Longrightarrow> \<forall>i \<in> set itr. k \<le> Key i \<Longrightarrow>
     retained nvk pfx k (filter (\<lambda>i. Key i = k) itr) = retained nvk pfx k itr"
  using takeWhile_filter_key [of itr k "\<lambda>i. prefix pfx (Key i) \<and> \<not> IsDeletedOrExpired i"]
  by (simp add: retained_def conj_assoc)

lemma retained_Nil: "records_of (retained nvk pfx k []) = []"
  by (simp add: retained_def records_of_def)

lemma scan_spec_per_key:
  assumes "sorted (map Key itr)" and "\<forall>i \<in> set itr. pfx \<le> Key i \<and> prevKey \<le> Key i"
  shows "filter (\<lambda>kv. kvKey kv = k) (scan_spec nvk pfx kr prevKey itr) =
     (if k \<noteq> prevKey \<and> in_range pfx kr k
      then records_of (retained nvk pfx k (filter (\<lambda>i. Key i = k) itr)) else [])"
  using assms
proof (induction itr arbitrary: prevKey)
  case Nil
  show ?case by (simp add: retained_Nil)
next
  case (Cons item rest)
  let ?k0 = "Key item"
  from Cons.prems have srt: "sorted (map Key rest)" and ge: "\<forall>i \<in> set rest. ?k0 \<le> Key i"
    and pf: "\<forall>i \<in> set rest. pfx \<le> Key i" and pk: "\<forall>i \<in> set rest. prevKey \<le> Key i"
    and p0: "pfx \<le> ?k0" and pk0: "prevKey \<le> ?k0"
    by auto
  have absent: "filter (\<lambda>i. Key i = k) (item # rest) = []" if "k < ?k0"
    using that ge by (auto simp: filter_empty_conv)
  show ?case
  proof (cases "prefix pfx ?k0")
    case False
    have "filter (\<lambda>i. Key i = k) (item # rest) = []" if "prefix pfx k"
    proof (cases "k < ?k0")
      case True
      then show ?thesis by (rule absent)
    next
      case ge0: False
      then have "?k0 \<le> k" by simp
      from prefix_between [OF p0 this that] False show ?thesis by simp
    qed
    with False show ?thesis by (auto simp: in_range_def retained_Nil)
  next
    case p: True
    show ?thesis
    proof (cases "?k0 = prevKey")
      case True
      with p Cons.IH [OF srt, of prevKey] pf pk show ?thesis by auto
    next
      case np: False
      show ?thesis
      proof (cases "right kr \<noteq> [] \<and> right kr \<le> ?k0")
        case True
        then have "filter (\<lambda>i. Key i = k) (item # rest) = []" if "k < right kr"
          using that absent by auto
        with p np True show ?thesis by (auto simp: in_range_def retained_Nil)
      next
        case nb: False
        have sc: "scan_spec nvk pfx kr prevKey (item # rest) =
            records_of (retained nvk pfx ?k0 (item # rest)) @ scan_spec nvk pfx kr ?k0 rest"
          using p np nb by auto
        have ih: "filter (\<lambda>kv. kvKey kv = k) (scan_spec nvk pfx kr ?k0 rest) =
            (if k \<noteq> ?k0 \<and> in_range pfx kr k
             then records_of (retained nvk pfx k (filter (\<lambda>i. Key i = k) rest)) else [])"
          using Cons.IH [OF srt, of ?k0] pf ge by simp
        have r0: "in_range pfx kr ?k0" using p nb by (auto simp: in_range_def)
        show ?thesis
        proof (cases "k = ?k0")
          case True
          have "retained nvk pfx ?k0 (filter (\<lambda>i. Key i = ?k0) (item # rest)) =
              retained nvk pfx ?k0 (item # rest)"
            using Cons.prems(1) ge by (intro retained_filter_key) auto
          moreover have "filter (\<lambda>kv. kvKey kv = k) (scan_spec nvk pfx kr ?k0 rest) = []"
            using ih True by simp
          ultimately show ?thesis
            unfolding sc using True np r0 by (simp add: filter_records_of_retained)
        next
          case False
          have "filter (\<lambda>i. Key i = k) rest = []" if "k = prevKey"
            using that pk0 np ge by (fastforce simp: filter_empty_conv)
          with False ih show ?thesis
            unfolding sc by (auto simp: filter_records_of_retained retained_Nil)
        qed
      qed
    qed
  qed
qed

lemma Seek_ge: "sorted (map Key snap) \<Longrightarrow> i \<in> set (Seek snap l) \<Longrightarrow> l \<le> Key i"
proof (induction snap)
  case Nil
  then show ?case by (simp add: Seek_def)
next
  case (Cons x xs)
  then show ?case by (fastforce simp: Seek_def split: if_splits)
qed

lemma Seek_sorted: "sorted (map Key snap) \<Longrightarrow> sorted (map Key (Seek snap l))"
  by (induction snap) (auto simp: Seek_def)

lemma Seek_filter_key:
  "sorted (map Key snap) \<Longrightarrow>
     filter (\<lambda>i. Key i = k) (Seek snap l) = (if l \<le> k then filter (\<lambda>i. Key i = k) snap else [])"
proof (induction snap)
  case Nil
  show ?case by (simp add: Seek_def)
next
  case (Cons x xs)
  show ?case
  proof (cases "Key x < l")
    case True
    with Cons show ?thesis by (auto simp: Seek_def)
  next
    case False
    then have s: "Seek (x # xs) l = x # xs" by (simp add: Seek_def)
    have "filter (\<lambda>i. Key i = k) (x # xs) = []" if "\<not> l \<le> k"
      using that False Cons.prems by (fastforce simp: filter_empty_conv)
    then show ?thesis unfolding s by simp
  qed
qed

lemma set_Seek: "set (Seek snap l) \<subseteq> set snap"
  by (auto simp: Seek_def dest: set_dropWhileD)

lemma iterate_per_key:
  assumes c: "ChooseKey st = None" and t: "KeyToList st = None" and ok: "snapshot_ok st"
    and l: "Prefix st \<le> left kr"
  shows "fst (snd (iterate st Size kr sz)) = None \<and>
     filter (\<lambda>kv. kvKey kv = k) (concat (fst (iterate st Size kr sz))) =
       (if left kr \<le> k \<and> in_range (Prefix st) kr k
        then records_of (retained (NumVersionsToKeep (opt (db st))) (Prefix st) k
               (filter (\<lambda>i. Key i = k) (itemsAt (db st) (readTs st))))
        else [])"
proof -
  let ?snap = "itemsAt (db st) (readTs st)" and ?nvk = "NumVersionsToKeep (opt (db st))"
  let ?itr = "Seek ?snap (left kr)"
  from ok have srt: "sorted (map Key ?snap)" and ne: "\<forall>i \<in> set ?snap. Key i \<noteq> []"
    and cp: "copies_ok ?snap"
    by (simp_all add: snapshot_ok_def list_all_iff)
  have "copies_ok ?itr" using cp set_Seek by (rule copies_ok_subset)
  from iterate_loop_scan_spec [OF this, of ?nvk "Prefix st" Size kr "[]" "[]" sz]
  obtain pages sz' where
    it: "iterate st Size kr sz = (pages, None, sz')"
    and cc: "concat pages = scan_spec ?nvk (Prefix st) kr [] ?itr"
    using c t by (auto simp: iterate_def keyToList_of_def)
  have ge: "\<forall>i \<in> set ?itr. Prefix st \<le> Key i \<and> [] \<le> Key i"
    using Seek_ge [OF srt] l by fastforce
  have f: "filter (\<lambda>kv. kvKey kv = k) (concat pages) =
      (if k \<noteq> [] \<and> in_range (Prefix st) kr k
       then records_of (retained ?nvk (Prefix st) k (filter (\<lambda>i. Key i = k) ?itr)) else [])"
    unfolding cc using Seek_sorted [OF srt] ge by (rule scan_spec_per_key)
  have e: "filter (\<lambda>i. Key i = []) ?snap = []"
    using ne by (auto simp: filter_empty_conv)
  show ?thesis
    unfolding it using f e
    by (auto simp: Seek_filter_key [OF srt] retained_Nil)
qed

lemma ranges_per_key:
  assumes c: "ChooseKey st = None" and t: "KeyToList st = None" and ok: "snapshot_ok st"
    and s: "sorted (start # splits)" and p: "Prefix st \<le> start"
    and ne: "\<forall>key \<in> set splits. key \<noteq> []"
  shows "list_all (\<lambda>kr. fst (snd (iterate st Size kr (szs kr))) = None)
       (produceRanges_loop start splits) \<and>
     filter (\<lambda>kv. kvKey kv = k)
       (concat (map (\<lambda>kr. concat (fst (iterate st Size kr (szs kr))))
          (produceRanges_loop start splits))) =
       (if start \<le> k \<and> prefix (Prefix st) k
        then records_of (retained (NumVersionsToKeep (opt (db st))) (Prefix st) k
               (filter (\<lambda>i. Key i = k) (itemsAt (db st) (readTs st))))
        else [])"
  using s p ne
proof (induction splits arbitrary: start)
  case Nil
  show ?case
    using iterate_per_key [OF c t ok, of "\<lparr>left = start, right = []\<rparr>" Size _ k] Nil.prems(2)
    by (simp add: in_range_def)
next
  case (Cons key splits)
  from Cons.prems have sk: "start \<le> key" and srt: "sorted (key # splits)"
    and pk: "Prefix st \<le> key" and kn: "key \<noteq> []" and ne': "\<forall>key \<in> set splits. key \<noteq> []"
    by auto
  note IH = Cons.IH [OF srt pk ne']
  note R = iterate_per_key [OF c t ok, of "\<lparr>left = start, right = key\<rparr>" Size _ k]
  show ?case
    using IH R Cons.prems(2) sk kn
    by (auto simp: in_range_def)
qed

lemma run_records_per_key:
  assumes "ChooseKey st = None" and "KeyToList st = None" and "snapshot_ok st" and "splits_ok st"
  shows "list_all (\<lambda>kr. fst (snd (iterate st Size kr (szs kr))) = None) (produceRanges st) \<and>
     filter (\<lambda>kv. kvKey kv = k) (run_records st Size szs) =
       (if prefix (Prefix st) k
        then records_of (retained (NumVersionsToKeep (opt (db st))) (Prefix st) k
               (filter (\<lambda>i. Key i = k) (itemsAt (db st) (readTs st))))
        else [])"
proof -
  from assms(4) have s: "sorted (Prefix st # KeySplits (db st) (Prefix st))"
    and ne: "\<forall>key \<in> set (KeySplits (db st) (Prefix st)). key \<noteq> []"
    by (simp_all add: splits_ok_def list_all_iff)
  show ?thesis
    unfolding run_records_def produceRanges_def
    using ranges_per_key [OF assms(1-3) s order_refl ne, of Size szs k] prefix_le [of "Prefix st" k]
    by auto
qed

lemma count_mset_map: "count (mset (map f xs)) k = length (filter (\<lambda>x. f x = k) xs)"
  by (induction xs) auto

lemma length_records_of: "length (records_of items) = length items"
  by (simp add: records_of_def)

lemma retained_nonempty:
  "retained nvk pfx k (newest # rest) \<noteq> [] \<longleftrightarrow>
     prefix pfx (Key newest) \<and> \<not> IsDeletedOrExpired newest \<and> Key newest = k"
  by (auto simp: retained_def)

lemma filter_key_hd: "filter (\<lambda>i. Key i = k) snap = newest # rest \<Longrightarrow> Key newest = k"
  by (drule filter_eq_ConsD) auto

lemma in_map_filter: "k \<in> set (map f xs) \<longleftrightarrow> filter (\<lambda>x. f x = k) xs \<noteq> []"
  by (auto simp: filter_empty_conv)

lemma emitted_iff_live_top:
  "prefix pfx k \<and> records_of (retained nvk pfx k (filter (\<lambda>i. Key i = k) snap)) \<noteq> [] \<longleftrightarrow>
     k \<in> set (snapshot_keys pfx snap) \<and>
     (case filter (\<lambda>i. Key i = k) snap of [] \<Rightarrow> False | newest # _ \<Rightarrow> \<not> IsDeletedOrExpired newest)"
proof (cases "filter (\<lambda>i. Key i = k) snap")
  case Nil
  then show ?thesis by (simp add: retained_Nil)
next
  case (Cons newest rest)
  then have k: "Key newest = k" by (rule filter_key_hd)
  from Cons have "newest \<in> set (filter (\<lambda>i. Key i = k) snap)" by simp
  then have "k \<in> Key ` set snap" using k by auto
  then show ?thesis
    using Cons k by (auto simp: snapshot_keys_def records_of_def retained_nonempty)
qed

lemma iterate_range_records:
  assumes "default_run st"
  shows "\<exists>pages sz'. iterate st Size kr sz = (pages, None, sz') \<and> concat pages = range_records st kr"
proof -
  from assms have "copies_ok (itemsAt (db st) (readTs st))"
    by (simp add: default_run_def snapshot_ok_def)
  then have "copies_ok (Seek (itemsAt (db st) (readTs st)) (left kr))"
    using set_Seek by (rule copies_ok_subset)
  from iterate_loop_scan_spec [OF this, of "NumVersionsToKeep (opt (db st))" "Prefix st" Size kr
      "[]" "[]" sz] assms
  show ?thesis by (simp add: iterate_def keyToList_of_def range_records_def default_run_def)
qed

lemma sum_list_map_update:
  fixes f :: "'a \<Rightarrow> 'b multiset"
  shows "i < length ws \<Longrightarrow>
    sum_list (map f (ws[i := w])) + f (ws ! i) = sum_list (map f ws) + f w"
  by (induction ws arbitrary: i) (auto split: nat.splits simp: ac_simps)

lemma flight_set_worker:
  assumes "worker s i = Some w"
  shows "flight (set_worker i w' s) + worker_flight w = flight s + worker_flight w'"
proof -
  from assms have i: "i < length (workers s)" and w: "workers s ! i = w"
    by (auto simp: worker_def split: if_splits)
  from sum_list_map_update [OF i, of worker_flight w'] w show ?thesis
    by (simp add: flight_def set_worker_def ac_simps)
qed

lemma list_ex_update_other:
  assumes "\<not> P w'" and "list_ex P (ws[i := w'])"
  shows "list_ex P ws"
proof -
  from assms(2) obtain j where j: "j < length ws" and p: "P ((ws[i := w']) ! j)"
    by (auto simp: list_ex_length)
  with assms(1) have "j \<noteq> i" by (auto simp: nth_list_update)
  with j p show ?thesis by (auto simp: list_ex_length nth_list_update)
qed

lemma flight_fields:
  "flight (s\<lparr>ctxDone := c\<rparr>) = flight s"
  "flight (s\<lparr>ranges := rs\<rparr>) = flight s"
  "flight (s\<lparr>rangeCh := rc\<rparr>) = flight s"
  "flight (s\<lparr>rangeChClosed := b\<rparr>) = flight s"
  "flight (s\<lparr>kvChanClosed := b\<rparr>) = flight s"
  "flight (s\<lparr>errCh := e\<rparr>) = flight s"
  "flight (s\<lparr>kvErr := ke\<rparr>) = flight s"
  "flight (s\<lparr>orch := oc\<rparr>) = flight s"
  "flight (s\<lparr>reported := rp\<rparr>) = flight s"
  by (simp_all add: flight_def)

lemma todo_fields:
  "todo st (s\<lparr>ctxDone := c\<rparr>) = todo st s"
  "todo st (s\<lparr>workers := ws\<rparr>) = todo st s"
  "todo st (s\<lparr>kvChan := kc\<rparr>) = todo st s"
  "todo st (s\<lparr>kvChanClosed := b\<rparr>) = todo st s"
  "todo st (s\<lparr>rangeChClosed := b\<rparr>) = todo st s"
  "todo st (s\<lparr>errCh := e\<rparr>) = todo st s"
  "todo st (s\<lparr>drainer := d\<rparr>) = todo st s"
  "todo st (s\<lparr>kvErr := ke\<rparr>) = todo st s"
  "todo st (s\<lparr>orch := oc\<rparr>) = todo st s"
  "todo st (s\<lparr>sent := sn\<rparr>) = todo st s"
  "todo st (s\<lparr>reported := rp\<rparr>) = todo st s"
  by (simp_all add: todo_def)

lemma todo_set_worker: "todo st (set_worker i w s) = todo st s"
  by (simp add: set_worker_def todo_fields)

lemma worker_fields:
  "worker (s\<lparr>rangeCh := rc\<rparr>) i = worker s i"
  "worker (s\<lparr>kvChan := kc\<rparr>) i = worker s i"
  "worker (s\<lparr>errCh := e, reported := rp\<rparr>) i = worker s i"
  by (simp_all add: worker_def)

lemma step_conserved:
  assumes d: "default_run st" and x: "step st Size e s = Some s'"
  shows "flight s' + todo st s' = flight s + todo st s"
proof (cases e)
  case Cancel
  with x show ?thesis by (auto simp: flight_fields todo_fields)
next
  case RangeSend
  with x show ?thesis
    by (auto simp: flight_def todo_def split: option.splits list.splits if_splits)
next
  case RangeClose
  with x show ?thesis
    by (auto simp: flight_def todo_def split: option.splits list.splits if_splits)
next
  case (KVsRecv i)
  with x obtain sz kr krs pages r sz' where
    w: "worker s i = Some (WSelect sz)" and c: "rangeCh s = kr # krs" and
    it: "iterate st Size kr sz = (pages, r, sz')" and
    s': "s' = set_worker i (WIterate pages r sz') (s\<lparr>rangeCh := krs\<rparr>)"
    by (auto split: option.splits wstate.splits list.splits prod.splits)
  from iterate_range_records [OF d, of Size kr sz] it
  have cp: "concat pages = range_records st kr" by simp
  have w': "worker (s\<lparr>rangeCh := krs\<rparr>) i = Some (WSelect sz)"
    using w by (simp add: worker_fields)
  have "flight s' = flight s + mset (range_records st kr)"
    using flight_set_worker [OF w', of "WIterate pages r sz'"] cp
    by (simp add: s' worker_flight_def flight_fields)
  moreover have "todo st s = todo st s' + mset (range_records st kr)"
    by (simp add: s' todo_set_worker) (simp add: todo_def c)
  ultimately show ?thesis by (simp add: ac_simps)
next
  case (KVsClosed i)
  with x obtain sz where w: "worker s i = Some (WSelect sz)"
    and s': "s' = set_worker i (WReturned None) s"
    by (auto split: option.splits wstate.splits list.splits if_splits)
  from flight_set_worker [OF w, of "WReturned None"] show ?thesis
    by (simp add: s' worker_flight_def todo_set_worker)
next
  case (KVsDone i)
  with x obtain sz where w: "worker s i = Some (WSelect sz)"
    and s': "s' = set_worker i (WReturned (Some Cancellation)) s"
    by (auto split: option.splits wstate.splits if_splits)
  from flight_set_worker [OF w, of "WReturned (Some Cancellation)"] show ?thesis
    by (simp add: s' worker_flight_def todo_set_worker)
next
  case (KVsSend i)
  with x obtain page pages r sz where
    w: "worker s i = Some (WIterate (page # pages) r sz)" and
    s': "s' = set_worker i (WIterate pages r sz) (s\<lparr>kvChan := kvChan s @ [page]\<rparr>)"
    by (auto split: option.splits wstate.splits list.splits if_splits)
  have w': "worker (s\<lparr>kvChan := kvChan s @ [page]\<rparr>) i = Some (WIterate (page # pages) r sz)"
    using w by (simp add: worker_fields)
  have "flight (s\<lparr>kvChan := kvChan s @ [page]\<rparr>) = flight s + mset page"
    by (simp add: flight_def)
  with flight_set_worker [OF w', of "WIterate pages r sz"] show ?thesis
    by (simp add: s' worker_flight_def todo_set_worker todo_fields)
next
  case (KVsIterated i)
  with x obtain r sz w' where w: "worker s i = Some (WIterate [] r sz)"
    and s': "s' = set_worker i w' s" and f: "worker_flight w' = {#}"
    by (auto simp: worker_flight_def split: option.splits wstate.splits list.splits)
  from flight_set_worker [OF w, of w'] f show ?thesis
    by (simp add: s' worker_flight_def todo_set_worker)
next
  case (KVsExit i)
  with x obtain r s0 where w: "worker s i = Some (WReturned r)"
    and s': "s' = set_worker i WExited s0" and f: "flight s0 = flight s" "todo st s0 = todo st s"
    and w0: "worker s0 i = Some (WReturned r)"
    by (auto simp: flight_def todo_def worker_fields split: option.splits wstate.splits)
  from flight_set_worker [OF w0, of WExited] f show ?thesis
    by (simp add: s' worker_flight_def todo_set_worker)
next
  case StreamDone
  with x show ?thesis
    by (auto simp: flight_def todo_def stream_return_def split: if_splits)
next
  case StreamTick
  with x show ?thesis by (auto split: if_splits)
next
  case StreamRecv
  with x show ?thesis
    by (auto simp: flight_def todo_def split: dstate.splits list.splits)
next
  case StreamClosed
  with x show ?thesis
    by (auto simp: flight_def todo_def stream_return_def split: dstate.splits list.splits if_splits)
next
  case SlurpRecv
  with x show ?thesis
    by (auto simp: flight_def todo_def split: dstate.splits list.splits)
next
  case SlurpSend
  with x show ?thesis
    by (auto simp: flight_def todo_def stream_return_def
        split: dstate.splits list.splits option.splits)
next
  case OrchClose
  with x show ?thesis by (auto simp: flight_def todo_def split: if_splits)
next
  case OrchErr
  with x show ?thesis by (auto simp: flight_def todo_def split: if_splits option.splits)
next
  case OrchKvErr
  with x show ?thesis by (auto simp: flight_def todo_def split: ostate.splits option.splits)
qed

lemma init_closing_inv: "closing_inv (init st numGo cancelled)"
  by (simp add: closing_inv_def init_def list_ex_iff)

lemma step_closing_inv:
  assumes x: "step st Size e s = Some s'" and c: "closing_inv s"
  shows "closing_inv s'"
proof -
  let ?gone = "\<lambda>w. w = WExited \<or> w = WReturned None"
  have keep: "closing_inv (set_worker i w' s0)"
    if "closing_inv s0" and "\<not> ?gone w'" for i w' s0
    using that list_ex_update_other [of ?gone w' "workers s0" i]
    by (auto simp: closing_inv_def set_worker_def)
  show ?thesis
  proof (cases e)
    case Cancel
    with x c show ?thesis by (auto simp: closing_inv_def)
  next
    case RangeSend
    with x c show ?thesis
      by (auto simp: closing_inv_def split: option.splits list.splits if_splits)
  next
    case RangeClose
    with x c show ?thesis
      by (auto simp: closing_inv_def split: option.splits list.splits if_splits)
  next
    case (KVsRecv i)
    with x obtain sz kr krs pages r sz' where
      w: "worker s i = Some (WSelect sz)" and ch: "rangeCh s = kr # krs" and
      s': "s' = set_worker i (WIterate pages r sz') (s\<lparr>rangeCh := krs\<rparr>)"
      by (auto split: option.splits wstate.splits list.splits prod.splits)
    have "\<not> (reported s = [] \<and> list_ex ?gone (workers s))"
      using c ch by (auto simp: closing_inv_def)
    then have "\<not> (reported s' = [] \<and> list_ex ?gone (workers s'))"
      using list_ex_update_other [of ?gone "WIterate pages r sz'" "workers s" i]
      by (auto simp: s' set_worker_def)
    with c show ?thesis by (auto simp: closing_inv_def s' set_worker_def)
  next
    case (KVsClosed i)
    with x c show ?thesis
      by (auto simp: closing_inv_def set_worker_def
          split: option.splits wstate.splits list.splits if_splits)
  next
    case (KVsDone i)
    with x obtain s': "s' = set_worker i (WReturned (Some Cancellation)) s"
      by (auto split: option.splits wstate.splits if_splits)
    show ?thesis unfolding s' using c by (rule keep) simp
  next
    case (KVsSend i)
    with x obtain page pages r sz where
      s': "s' = set_worker i (WIterate pages r sz) (s\<lparr>kvChan := kvChan s @ [page]\<rparr>)"
      and o: "\<not> kvChanClosed s"
      by (auto split: option.splits wstate.splits list.splits if_splits)
    from c o have "closing_inv (s\<lparr>kvChan := kvChan s @ [page]\<rparr>)"
      by (auto simp: closing_inv_def)
    then show ?thesis unfolding s' by (rule keep) simp
  next
    case (KVsIterated i)
    with x obtain w' where s': "s' = set_worker i w' s" and g: "\<not> ?gone w'"
      by (auto split: option.splits wstate.splits list.splits)
    show ?thesis unfolding s' using c g by (rule keep)
  next
    case (KVsExit i)
    with x obtain r where w: "worker s i = Some (WReturned r)"
      by (auto split: option.splits wstate.splits)
    show ?thesis
    proof (cases r)
      case None
      from w have "list_ex ?gone (workers s)"
        unfolding None by (auto simp: worker_def list_ex_length split: if_splits)
      with x c KVsExit w None show ?thesis
        by (auto simp: closing_inv_def set_worker_def)
    next
      case (Some err)
      with x c KVsExit w show ?thesis
        by (auto simp: closing_inv_def set_worker_def)
    qed
  next
    case StreamDone
    with x c show ?thesis
      by (auto simp: closing_inv_def stream_return_def split: if_splits)
  next
    case StreamTick
    with x c show ?thesis by (auto split: if_splits)
  next
    case StreamRecv
    with x c show ?thesis
      by (auto simp: closing_inv_def split: dstate.splits list.splits)
  next
    case StreamClosed
    with x c show ?thesis
      by (auto simp: closing_inv_def stream_return_def split: dstate.splits list.splits if_splits)
  next
    case SlurpRecv
    with x c show ?thesis
      by (auto simp: closing_inv_def split: dstate.splits list.splits)
  next
    case SlurpSend
    with x c show ?thesis
      by (auto simp: closing_inv_def stream_return_def
          split: dstate.splits list.splits option.splits)
  next
    case OrchClose
    with x c show ?thesis by (auto simp: closing_inv_def split: if_splits)
  next
    case OrchErr
    with x c show ?thesis by (auto simp: closing_inv_def split: if_splits option.splits)
  next
    case OrchKvErr
    with x c show ?thesis by (auto simp: closing_inv_def split: ostate.splits option.splits)
  qed
qed

lemma exec_closing_inv:
  "exec st Size es s = Some s' \<Longrightarrow> closing_inv s \<Longrightarrow> closing_inv s'"
  by (induction es arbitrary: s) (auto split: option.splits dest: step_closing_inv)

lemma exec_conserved:
  "default_run st \<Longrightarrow> exec st Size es s = Some s' \<Longrightarrow>
     flight s' + todo st s' = flight s + todo st s"
  by (induction es arbitrary: s) (auto split: option.splits dest: step_conserved)

lemma sum_list_replicate_empty: "sum_list (replicate n ({#} :: 'a multiset)) = {#}"
  by (induction n) auto

lemma init_flight_todo: "flight (init st numGo cancelled) + todo st (init st numGo cancelled) = all_records st"
  by (simp add: flight_def todo_def init_def all_records_def worker_flight_def
      sum_list_replicate_empty)

lemma all_exited_flight:
  "list_all (\<lambda>w. w = WExited) ws \<Longrightarrow> sum_list (map worker_flight ws) = {#}"
  by (induction ws) (auto simp: worker_flight_def)

lemma all_records_run_records:
  assumes "default_run st"
  shows "mset (run_records st Size szs) = all_records st"
proof -
  have "concat (fst (iterate st Size kr (szs kr))) = range_records st kr" for kr
    using iterate_range_records [OF assms, of Size kr "szs kr"] by auto
  then show ?thesis
    by (simp add: run_records_def all_records_def mset_concat comp_def)
qed

lemma delivered_all:
  assumes d: "default_run st" and n: "0 < numGo"
    and x: "exec st Size es (init st numGo cancelled) = Some s" and r: "orch s = OReturned None"
  shows "mset (concat (sent s)) = mset (run_records st Size szs)"
proof -
  have e: "err_inv s" using exec_err_inv [OF x init_err_inv] .
  have c: "closing_inv s" using exec_closing_inv [OF x init_closing_inv] .
  have k: "flight s + todo st s = all_records st"
    using exec_conserved [OF d x] init_flight_todo by simp
  from e r have rp: "reported s = []" and dr: "drainer s = DReturned None"
    and ex: "list_all (\<lambda>w. w = WExited) (workers s)"
    by (auto simp: err_inv_def split: list.splits)
  have "length (workers s) = nat numGo"
    using exec_length_workers [OF x] by (simp add: init_def)
  with n obtain w ws where ws: "workers s = w # ws" by (cases "workers s") auto
  with ex have "list_ex (\<lambda>w. w = WExited \<or> w = WReturned None) (workers s)" by simp
  with c rp dr have "rangeCh s = []" and "ranges s = None" and "kvChan s = []"
    by (auto simp: closing_inv_def)
  with k dr all_exited_flight [OF ex] have "mset (concat (sent s)) = all_records st"
    by (simp add: flight_def todo_def)
  then show ?thesis by (simp add: all_records_run_records [OF d])
qed

text \<open>
  Claim C1, as amended. In a run with no \<open>ChooseKey\<close> and the default \<open>KeyToList\<close>, over a
  snapshot sorted by key without empty keys in which no value copy fails, with sorted,
  non-empty split keys: no scan of a range returns an error; for every key, the records
  with that key in the pages of all ranges are exactly the records of the versions that
  the default policy retains of it, in order, when the key has the prefix, and none
  otherwise. So the key occurs among the emitted keys once per retained version: not at
  all when its highest version is deleted or expired, several times when several
  versions are retained; and a key is emitted if and only if it is a key of the
  snapshot with the prefix whose highest version is not deleted or expired. Every key is
  collected by one range only, whatever \<open>size\<close> the workers carry. In every run of
  \<open>Orchestrate\<close> with at least one worker that returns nil, the batches given to
  \<open>st.Send\<close> hold exactly these records.
\<close>

theorem keys_emitted_per_retained_version:
  assumes "ChooseKey st = None" and "KeyToList st = None" and "snapshot_ok st" and "splits_ok st"
  shows "list_all (\<lambda>kr. fst (snd (iterate st Size kr (szs kr))) = None) (produceRanges st) \<and>
     filter (\<lambda>kv. kvKey kv = k) (run_records st Size szs) =
       (if prefix (Prefix st) k
        then records_of (retained (NumVersionsToKeep (opt (db st))) (Prefix st) k
               (filter (\<lambda>i. Key i = k) (itemsAt (db st) (readTs st))))
        else []) \<and>
     count (mset (map kvKey (run_records st Size szs))) k =
       (if prefix (Prefix st) k
        then length (retained (NumVersionsToKeep (opt (db st))) (Prefix st) k
               (filter (\<lambda>i. Key i = k) (itemsAt (db st) (readTs st))))
        else 0) \<and>
     (k \<in> set (map kvKey (run_records st Size szs)) \<longleftrightarrow>
        k \<in> set (snapshot_keys (Prefix st) (itemsAt (db st) (readTs st))) \<and>
        (case filter (\<lambda>i. Key i = k) (itemsAt (db st) (readTs st)) of
           [] \<Rightarrow> False | newest # _ \<Rightarrow> \<not> IsDeletedOrExpired newest)) \<and>
     (0 < numGo \<and> exec st Size es (init st numGo cancelled) = Some s \<and> orch s = OReturned None \<longrightarrow>
        mset (concat (sent s)) = mset (run_records st Size szs) \<and>
        count (mset (map kvKey (concat (sent s)))) k =
          (if prefix (Prefix st) k
           then length (retained (NumVersionsToKeep (opt (db st))) (Prefix st) k
                  (filter (\<lambda>i. Key i = k) (itemsAt (db st) (readTs st))))
           else 0))"
proof -
  note r = run_records_per_key [OF assms, of Size szs k]
  let ?R = "retained (NumVersionsToKeep (opt (db st))) (Prefix st) k
               (filter (\<lambda>i. Key i = k) (itemsAt (db st) (readTs st)))"
  from r have f: "filter (\<lambda>kv. kvKey kv = k) (run_records st Size szs) =
      (if prefix (Prefix st) k then records_of ?R else [])"
    by simp
  have c: "count (mset (map kvKey (run_records st Size szs))) k =
      (if prefix (Prefix st) k then length ?R else 0)"
    unfolding count_mset_map f by (simp add: length_records_of)
  have m: "k \<in> set (map kvKey (run_records st Size szs)) \<longleftrightarrow>
      prefix (Prefix st) k \<and> records_of ?R \<noteq> []"
    unfolding in_map_filter f by simp
  have d: "default_run st" using assms(1-3) by (simp add: default_run_def)
  have s: "mset (concat (sent s)) = mset (run_records st Size szs) \<and>
        count (mset (map kvKey (concat (sent s)))) k =
          (if prefix (Prefix st) k then length ?R else 0)"
    if "0 < numGo" and "exec st Size es (init st numGo cancelled) = Some s"
      and "orch s = OReturned None"
  proof -
    have e: "mset (concat (sent s)) = mset (run_records st Size szs)"
      using d that by (rule delivered_all)
    then have "mset (map kvKey (concat (sent s))) = mset (map kvKey (run_records st Size szs))"
      by (metis mset_map)
    with e c show ?thesis by simp
  qed
  show ?thesis
    using r c m s unfolding emitted_iff_live_top by blast
qed

lemma keep_all_records:
  "run_records keep_all ex_Size (\<lambda>kr. 0) =
     [kv_of (live [0x61] 1 [1]) [1], kv_of v5 [0x35], kv_of v4 [0x34], kv_of (live [0x7A] 1 [9]) [9]]"
  by (simp add: run_records_def keep_all_def ex_stream_def ex_snap_def produceRanges_def
      iterate_def keyToList_of_def Seek_def ToList_def live_def dead_def v5_def v4_def v3_def
      flush_def pushed_def pageSize_def ex_Size_def kv_of_def)

lemma keep_all_ok:
  "ChooseKey keep_all = None \<and> KeyToList keep_all = None \<and> snapshot_ok keep_all \<and>
   splits_ok keep_all"
  by (simp add: keep_all_def ex_stream_def ex_snap_def snapshot_ok_def splits_ok_def
      copies_ok_def live_def dead_def v5_def v4_def v3_def)

lemma run4_exec:
  "exec keep_all ex_Size run4 (init keep_all 1 False)
   = Some \<lparr>ctxDone = False, ranges = None, rangeCh = [], rangeChClosed = True,
      workers = [WExited], kvChan = [], kvChanClosed = True,
      errCh = None, drainer = DReturned None, kvErr = None, orch = OReturned None,
      sent = [[kv_of (live [0x61] 1 [1]) [1], kv_of v5 [0x35], kv_of v4 [0x34],
               kv_of (live [0x7A] 1 [9]) [9]]], reported = []\<rparr>"
  by (simp add: run4_def keep_all_def init_def ex_stream_def ex_snap_def produceRanges_def
      iterate_def keyToList_of_def Seek_def ToList_def live_def dead_def v5_def v4_def v3_def
      flush_def pushed_def pageSize_def ex_Size_def worker_def set_worker_def stream_return_def
      kv_of_def)

theorem keys_emitted_per_retained_version_witness:
  "ChooseKey keep_all = None \<and> KeyToList keep_all = None \<and> snapshot_ok keep_all \<and>
   splits_ok keep_all \<and>
   produceRanges keep_all = [\<lparr>left = [], right = [0x6B]\<rparr>, \<lparr>left = [0x6B], right = []\<rparr>] \<and>
   filter (\<lambda>kv. kvKey kv = [0x6B]) (run_records keep_all ex_Size (\<lambda>kr. 0)) =
     [kv_of v5 [0x35], kv_of v4 [0x34]] \<and>
   count (mset (map kvKey (run_records keep_all ex_Size (\<lambda>kr. 0)))) [0x6B] = 2 \<and>
   count (mset (map kvKey (run_records keep_all ex_Size (\<lambda>kr. 0)))) [0x64] = 0 \<and>
   [0x64] \<in> set (snapshot_keys (Prefix keep_all) (itemsAt (db keep_all) (readTs keep_all))) \<and>
   (0 :: int) < 1 \<and>
   (case exec keep_all ex_Size run4 (init keep_all 1 False) of
      None \<Rightarrow> False
    | Some s \<Rightarrow> orch s = OReturned None \<and>
        count (mset (map kvKey (concat (sent s)))) [0x6B] = 2 \<and>
        count (mset (map kvKey (concat (sent s)))) [0x64] = 0)"
  using keys_emitted_per_retained_version [where st = keep_all and Size = ex_Size
      and szs = "\<lambda>kr. 0" and k = "[0x6B]" and numGo = 1 and es = run4 and cancelled = False
      and s = "the (exec keep_all ex_Size run4 (init keep_all 1 False))"]
    keys_emitted_per_retained_version [where st = keep_all and Size = ex_Size
      and szs = "\<lambda>kr. 0" and k = "[0x64]" and numGo = 1 and es = run4 and cancelled = False
      and s = "the (exec keep_all ex_Size run4 (init keep_all 1 False))"]
    keep_all_ok keep_all_records run4_exec
  by (simp add: keep_all_def ex_stream_def ex_snap_def produceRanges_def snapshot_keys_def
      kv_of_def live_def dead_def v5_def v4_def v3_def)

text \<open>
  The claim as stated fails: key "d" has only a deleted version and is not emitted, and
  key "k" has two live versions above a deleted one and is emitted twice under a
  keep-all limit, so the multiset of emitted keys is not the multiset of distinct keys.
\<close>

theorem keys_emitted_counterexample:
  "map kvKey (run_records keep_all ex_Size (\<lambda>kr. 0)) = [[0x61], [0x6B], [0x6B], [0x7A]] \<and>
   snapshot_keys (Prefix keep_all) (itemsAt (db keep_all) (readTs keep_all)) =
     [[0x61], [0x64], [0x6B], [0x7A]] \<and>
   mset (map kvKey (run_records keep_all ex_Size (\<lambda>kr. 0))) \<noteq>
   mset (snapshot_keys (Prefix keep_all) (itemsAt (db keep_all) (readTs keep_all)))"
proof -
  have a: "map kvKey (run_records keep_all ex_Size (\<lambda>kr. 0)) = [[0x61], [0x6B], [0x6B], [0x7A]]"
    unfolding keep_all_records by (simp add: kv_of_def live_def v5_def v4_def)
  have b: "snapshot_keys (Prefix keep_all) (itemsAt (db keep_all) (readTs keep_all)) =
     [[0x61], [0x64], [0x6B], [0x7A]]"
    by (simp add: keep_all_def ex_stream_def ex_snap_def snapshot_keys_def live_def dead_def
        v5_def v4_def v3_def)
  have "count (mset [[0x61], [0x6B], [0x6B], [0x7A :: byte]]) [0x64] \<noteq>
      count (mset [[0x61], [0x64], [0x6B], [0x7A]]) [0x64]"
    by simp
  then have "mset [[0x61], [0x6B], [0x6B], [0x7A :: byte]] \<noteq> mset [[0x61], [0x64], [0x6B], [0x7A]]"
    by metis
  with a b show ?thesis by simp
qed

section \<open>A versions-to-keep limit of 1\<close>

lemma retained_one:
  "retained 1 pfx k (newest # rest) =
     (if prefix pfx (Key newest) \<and> \<not> IsDeletedOrExpired newest \<and> Key newest = k
      then [newest] else [])"
  by (auto simp: retained_def)

lemma sorted_wrt_hd_filter:
  assumes "sorted_wrt R snap" and "filter P snap = newest # rest" and "i \<in> set snap" and "P i"
  shows "i = newest \<or> R newest i"
proof -
  have "sorted_wrt R (filter P snap)" using assms(1) by (rule sorted_wrt_filter)
  then have "\<forall>j \<in> set rest. R newest j" using assms(2) by simp
  moreover have "i \<in> set (filter P snap)" using assms(3,4) by simp
  then have "i \<in> set (newest # rest)" using assms(2) by simp
  ultimately show ?thesis by auto
qed

text \<open>
  Claim C5. With a versions-to-keep limit of 1, \<open>ToList\<close> looks at the entry under the
  cursor only: it returns at most one record, made from that entry, whatever entries
  follow, and does not advance the cursor. In a run with no \<open>ChooseKey\<close> and the
  default \<open>KeyToList\<close> (snapshot sorted by key, no empty key, no failing value copy, split
  keys sorted and non-empty), at most one record is emitted for every key, over all
  ranges; every emitted record carries the version of the first entry of its key in
  the snapshot, which is not deleted or expired; and when the snapshot lists the
  versions of a key in descending order, no entry of that key has a higher version
  than the record.
\<close>

theorem single_version_highest_only:
  "ToList 1 pfx key [] = (Inr (Some []), 0)
   \<and> ToList 1 pfx key (item # rest) =
       (if prefix pfx (Key item) \<and> \<not> IsDeletedOrExpired item \<and> key = Key item
        then (case ValueCopy item of
                Inl err \<Rightarrow> (Inl err, 0)
              | Inr v \<Rightarrow> (Inr (Some [kv_of item v]), 0))
        else (Inr (Some []), 0))
   \<and> (\<forall>kvs. fst (ToList 1 pfx key itr) = Inr (Some kvs) \<longrightarrow>
        length kvs \<le> 1 \<and>
        (\<forall>kv \<in> set kvs. itr \<noteq> [] \<and> kvKey kv = key \<and> kvVersion kv = Version (hd itr)))
   \<and> (ChooseKey st = None \<and> KeyToList st = None \<and> snapshot_ok st \<and> splits_ok st \<and>
        NumVersionsToKeep (opt (db st)) = 1 \<longrightarrow>
        length (filter (\<lambda>kv. kvKey kv = k) (run_records st Size szs)) \<le> 1 \<and>
        (\<forall>kv \<in> set (run_records st Size szs).
           (case filter (\<lambda>i. Key i = kvKey kv) (itemsAt (db st) (readTs st)) of
              [] \<Rightarrow> False
            | newest # _ \<Rightarrow> kvVersion kv = Version newest \<and> \<not> IsDeletedOrExpired newest) \<and>
           (sorted_wrt (\<lambda>a b. Key a = Key b \<longrightarrow> Version b < Version a)
              (itemsAt (db st) (readTs st)) \<longrightarrow>
            (\<forall>i \<in> set (itemsAt (db st) (readTs st)).
               Key i = kvKey kv \<longrightarrow> Version i \<le> kvVersion kv))))"
proof -
  let ?snap = "itemsAt (db st) (readTs st)"
  have tl: "ToList 1 pfx key [] = (Inr (Some []), 0)
   \<and> ToList 1 pfx key (item # rest) =
       (if prefix pfx (Key item) \<and> \<not> IsDeletedOrExpired item \<and> key = Key item
        then (case ValueCopy item of
                Inl err \<Rightarrow> (Inl err, 0)
              | Inr v \<Rightarrow> (Inr (Some [kv_of item v]), 0))
        else (Inr (Some []), 0))
   \<and> (\<forall>kvs. fst (ToList 1 pfx key itr) = Inr (Some kvs) \<longrightarrow>
        length kvs \<le> 1 \<and>
        (\<forall>kv \<in> set kvs. itr \<noteq> [] \<and> kvKey kv = key \<and> kvVersion kv = Version (hd itr)))"
    by (cases itr) (auto simp: ToList_def kv_of_def split: sum.splits)
  have run: "length (filter (\<lambda>kv. kvKey kv = k) (run_records st Size szs)) \<le> 1 \<and>
        (\<forall>kv \<in> set (run_records st Size szs).
           (case filter (\<lambda>i. Key i = kvKey kv) ?snap of
              [] \<Rightarrow> False
            | newest # _ \<Rightarrow> kvVersion kv = Version newest \<and> \<not> IsDeletedOrExpired newest) \<and>
           (sorted_wrt (\<lambda>a b. Key a = Key b \<longrightarrow> Version b < Version a) ?snap \<longrightarrow>
            (\<forall>i \<in> set ?snap. Key i = kvKey kv \<longrightarrow> Version i \<le> kvVersion kv)))"
    if h: "ChooseKey st = None" "KeyToList st = None" "snapshot_ok st" "splits_ok st"
      and one: "NumVersionsToKeep (opt (db st)) = 1"
  proof -
    have f: "filter (\<lambda>kv. kvKey kv = k') (run_records st Size szs) =
        (if prefix (Prefix st) k'
         then records_of (retained 1 (Prefix st) k' (filter (\<lambda>i. Key i = k') ?snap)) else [])"
      for k'
      using run_records_per_key [OF h, of Size szs k'] one by simp
    have len: "length (records_of (retained 1 (Prefix st) k' items)) \<le> 1" for k' items
      by (cases items) (simp_all add: retained_one retained_Nil length_records_of)
    have a: "length (filter (\<lambda>kv. kvKey kv = k) (run_records st Size szs)) \<le> 1"
      unfolding f using len by simp
    have b: "(case filter (\<lambda>i. Key i = kvKey kv) ?snap of
              [] \<Rightarrow> False
            | newest # _ \<Rightarrow> kvVersion kv = Version newest \<and> \<not> IsDeletedOrExpired newest) \<and>
           (sorted_wrt (\<lambda>a b. Key a = Key b \<longrightarrow> Version b < Version a) ?snap \<longrightarrow>
            (\<forall>i \<in> set ?snap. Key i = kvKey kv \<longrightarrow> Version i \<le> kvVersion kv))"
      if kv: "kv \<in> set (run_records st Size szs)" for kv
    proof -
      let ?k = "kvKey kv"
      from kv have "kv \<in> set (filter (\<lambda>x. kvKey x = ?k) (run_records st Size szs))" by simp
      then have m: "kv \<in> set (records_of (retained 1 (Prefix st) ?k
          (filter (\<lambda>i. Key i = ?k) ?snap)))"
        unfolding f by (simp split: if_splits)
      then obtain newest rest where g: "filter (\<lambda>i. Key i = ?k) ?snap = newest # rest"
        by (cases "filter (\<lambda>i. Key i = ?k) ?snap") (auto simp: retained_Nil)
      from m have e: "kv = kv_of newest (the_value newest)" and d: "\<not> IsDeletedOrExpired newest"
        unfolding g by (auto simp: retained_one records_of_def split: if_splits)
      from e have v: "kvVersion kv = Version newest" by (simp add: kv_of_def)
      have "Version i \<le> kvVersion kv"
        if s: "sorted_wrt (\<lambda>a b. Key a = Key b \<longrightarrow> Version b < Version a) ?snap"
          and i: "i \<in> set ?snap" and ki: "Key i = ?k" for i
      proof -
        from filter_key_hd [OF g] have kn: "Key newest = ?k" .
        from sorted_wrt_hd_filter [OF s g i ki] kn ki v show ?thesis by auto
      qed
      with g v d show ?thesis by simp
    qed
    from a b show ?thesis by blast
  qed
  from tl run show ?thesis by blast
qed

lemma single_version_records:
  "run_records single_version ex_Size (\<lambda>kr. 0) =
     [kv_of (live [0x61] 1 [1]) [1], kv_of v5 [0x35], kv_of (live [0x7A] 1 [9]) [9]]"
  by (simp add: run_records_def single_version_def ex_stream_def ex_snap_def produceRanges_def
      iterate_def keyToList_of_def Seek_def ToList_def live_def dead_def v5_def v4_def v3_def
      flush_def pushed_def pageSize_def ex_Size_def kv_of_def)

lemma single_version_ok:
  "ChooseKey single_version = None \<and> KeyToList single_version = None \<and>
   snapshot_ok single_version \<and> splits_ok single_version \<and>
   NumVersionsToKeep (opt (db single_version)) = 1 \<and>
   sorted_wrt (\<lambda>a b. Key a = Key b \<longrightarrow> Version b < Version a)
     (itemsAt (db single_version) (readTs single_version))"
  by (simp add: single_version_def ex_stream_def ex_snap_def snapshot_ok_def splits_ok_def
      copies_ok_def live_def dead_def v5_def v4_def v3_def)

theorem single_version_highest_only_witness:
  "ToList 1 [] [0x6B] [v5, v4, v3] = (Inr (Some [kv_of v5 [0x35]]), 0)
   \<and> ToList 1 [] [0x6B] [v3, v4] = (Inr (Some []), 0)
   \<and> kvVersion (kv_of v5 [0x35]) = Version (hd [v5, v4, v3])
   \<and> ChooseKey single_version = None \<and> KeyToList single_version = None
   \<and> snapshot_ok single_version \<and> splits_ok single_version
   \<and> NumVersionsToKeep (opt (db single_version)) = 1
   \<and> filter (\<lambda>kv. kvKey kv = [0x6B]) (run_records single_version ex_Size (\<lambda>kr. 0)) =
       [kv_of v5 [0x35]]
   \<and> kvVersion (kv_of v5 [0x35]) = 5"
  using single_version_highest_only [where pfx = "[]" and key = "[0x6B]" and item = v5
      and rest = "[v4, v3]" and itr = "[v5, v4, v3]" and st = single_version and Size = ex_Size
      and szs = "\<lambda>kr. 0" and k = "[0x6B]"]
    single_version_highest_only [where pfx = "[]" and key = "[0x6B]" and item = v3
      and rest = "[v4]" and itr = "[v3, v4]" and st = single_version and Size = ex_Size
      and szs = "\<lambda>kr. 0" and k = "[0x6B]"]
    single_version_ok single_version_records
  by (simp add: v5_def v4_def v3_def kv_of_def live_def dead_def)

end
